theory Spec2Isabelle
  imports Main "HOL-Library.Product_Lexorder"
begin

section \<open>Win detection of the slot machine: the model\<close>

text \<open>
  The model follows the class \<open>GameCoreLogic\<close>. A row is a JavaScript array, which can be
  sparse: each of its slots is a hole (an index below \<open>length\<close> that holds nothing),
  \<open>undefined\<close> or a symbol name. Reading a hole by index gives \<open>undefined\<close>, while
  \<open>every\<close> and \<open>flat\<close> skip it. A row may itself be missing, as may the grid
  (\<open>isValidGrid\<close> tests both). A coordinate \<open>{r, c}\<close> is the pair \<open>(r, c)\<close>.
\<close>

subsection \<open>Data\<close>

datatype slot = Hole | Undefined | Symbol string

type_synonym cell = "string option"
type_synonym grid = "slot list option list"
type_synonym GridCoord = "int \<times> int"
type_synonym path = "GridCoord list"

record WinsResult =
  straight :: "path list"
  diagonal :: "path list"
  adjacency :: "path list"

record CheckResult =
  winningPaths :: "path list"
  wins :: WinsResult

text \<open>The value that reading a slot gives: \<open>undefined\<close> or a symbol name.\<close>

definition valueOf :: "slot \<Rightarrow> cell" where
  "valueOf e = (case e of Symbol s \<Rightarrow> Some s | _ \<Rightarrow> None)"

definition REEL_COUNT :: int where
  "REEL_COUNT = 4"

definition SYMBOLS_PER_REEL :: int where
  "SYMBOLS_PER_REEL = 6"

text \<open>
  What a read can do wrong. \<open>TypeError\<close> is what JavaScript throws when \<open>grid[r]\<close> is
  \<open>undefined\<close> and is indexed or called. A column index outside a row reads as
  \<open>undefined\<close> in JavaScript; the model reports it as \<open>OutOfRange\<close>, so that a result
  \<open>Inr\<close> says that no read left the grid.
\<close>

datatype error = TypeError | OutOfRange

text \<open>\<open>grid[r]\<close>, used as an array.\<close>

definition rowAt :: "grid \<Rightarrow> int \<Rightarrow> error + slot list" where
  "rowAt g r =
     (if 0 \<le> r \<and> r < int (length g)
      then (case g ! nat r of None \<Rightarrow> Inl TypeError | Some cs \<Rightarrow> Inr cs)
      else Inl TypeError)"

text \<open>\<open>grid[r][c]\<close>.\<close>

definition cellAt :: "grid \<Rightarrow> int \<Rightarrow> int \<Rightarrow> error + cell" where
  "cellAt g r c =
     (case rowAt g r of
        Inl e \<Rightarrow> Inl e
      | Inr cs \<Rightarrow> if 0 \<le> c \<and> c < int (length cs) then Inr (valueOf (cs ! nat c))
                  else Inl OutOfRange)"

text \<open>JavaScript truthiness of a cell: \<open>undefined\<close> and the empty string are falsy.\<close>

definition truthy :: "cell \<Rightarrow> bool" where
  "truthy v = (case v of None \<Rightarrow> False | Some s \<Rightarrow> s \<noteq> [])"

text \<open>A \<open>for\<close> loop over the values \<open>xs\<close> whose body updates a state and may throw.\<close>

fun forEach :: "'a list \<Rightarrow> ('a \<Rightarrow> 's \<Rightarrow> error + 's) \<Rightarrow> 's \<Rightarrow> error + 's" where
  "forEach [] body s = Inr s"
| "forEach (x # xs) body s =
     (case body x s of Inl e \<Rightarrow> Inl e | Inr s' \<Rightarrow> forEach xs body s')"

subsection \<open>Validation\<close>

definition isValidGrid :: "grid option \<Rightarrow> bool" where
  "isValidGrid go =
     (case go of
        None \<Rightarrow> False
      | Some g \<Rightarrow>
          if int (length g) \<noteq> REEL_COUNT then False
          else list_all (\<lambda>row. case row of
                                 None \<Rightarrow> False
                               | Some cs \<Rightarrow> int (length cs) = SYMBOLS_PER_REEL) g)"

subsection \<open>Straight lines\<close>

text \<open>
  \<open>grid[r].every(...)\<close> calls its predicate on the slots that hold a value and skips the
  holes.
\<close>

definition findHorizontalWins :: "grid \<Rightarrow> error + path list" where
  "findHorizontalWins g =
     forEach [0 .. REEL_COUNT - 1]
       (\<lambda>r ws.
          case cellAt g r 0 of
            Inl e \<Rightarrow> Inl e
          | Inr firstSymbol \<Rightarrow>
              if \<not> truthy firstSymbol then Inr ws
              else (case rowAt g r of
                      Inl e \<Rightarrow> Inl e
                    | Inr cs \<Rightarrow>
                        if list_all (\<lambda>symbol. symbol = firstSymbol)
                                    (map valueOf (filter (\<lambda>e. e \<noteq> Hole) cs))
                        then Inr (ws @ [map (\<lambda>c. (r, c)) [0 .. SYMBOLS_PER_REEL - 1]])
                        else Inr ws))
       []"

text \<open>
  The inner loop of the vertical scan: rows \<open>rs\<close> of column \<open>c\<close> are read until one
  differs from \<open>firstSymbol\<close> (the \<open>break\<close>); the result is \<open>allMatch\<close>.
\<close>

fun columnMatches :: "grid \<Rightarrow> cell \<Rightarrow> int \<Rightarrow> int list \<Rightarrow> error + bool" where
  "columnMatches g firstSymbol c [] = Inr True"
| "columnMatches g firstSymbol c (r # rs) =
     (case cellAt g r c of
        Inl e \<Rightarrow> Inl e
      | Inr v \<Rightarrow> if v \<noteq> firstSymbol then Inr False else columnMatches g firstSymbol c rs)"

definition findVerticalWins :: "grid \<Rightarrow> error + path list" where
  "findVerticalWins g =
     forEach [0 .. SYMBOLS_PER_REEL - 1]
       (\<lambda>c ws.
          case cellAt g 0 c of
            Inl e \<Rightarrow> Inl e
          | Inr firstSymbol \<Rightarrow>
              if \<not> truthy firstSymbol then Inr ws
              else (case columnMatches g firstSymbol c [1 .. REEL_COUNT - 1] of
                      Inl e \<Rightarrow> Inl e
                    | Inr allMatch \<Rightarrow>
                        if allMatch
                        then Inr (ws @ [map (\<lambda>r. (r, c)) [0 .. REEL_COUNT - 1]])
                        else Inr ws))
       []"

subsection \<open>Diagonals\<close>

text \<open>
  The inner loop of the diagonal scan, for the rows \<open>rs\<close> still to read: \<open>step\<close> is
  \<open>+1\<close> or \<open>-1\<close>, the cell read in row \<open>r\<close> is \<open>(r, c + step * r)\<close>, and the pair
  returned is \<open>(allMatch, path)\<close>.
\<close>

fun diagonalRun :: "grid \<Rightarrow> cell \<Rightarrow> int \<Rightarrow> int \<Rightarrow> int list \<Rightarrow> path \<Rightarrow> error + (bool \<times> path)" where
  "diagonalRun g firstSymbol c step [] p = Inr (True, p)"
| "diagonalRun g firstSymbol c step (r # rs) p =
     (case cellAt g r (c + step * r) of
        Inl e \<Rightarrow> Inl e
      | Inr v \<Rightarrow>
          if v \<noteq> firstSymbol then Inr (False, p)
          else diagonalRun g firstSymbol c step rs (p @ [(r, c + step * r)]))"

definition diagonalFrom :: "grid \<Rightarrow> int \<Rightarrow> int \<Rightarrow> path list \<Rightarrow> error + path list" where
  "diagonalFrom g step c ws =
     (case cellAt g 0 c of
        Inl e \<Rightarrow> Inl e
      | Inr firstSymbol \<Rightarrow>
          if \<not> truthy firstSymbol then Inr ws
          else (case diagonalRun g firstSymbol c step [1 .. REEL_COUNT - 1] [(0, c)] of
                  Inl e \<Rightarrow> Inl e
                | Inr (allMatch, p) \<Rightarrow> if allMatch then Inr (ws @ [p]) else Inr ws))"

definition findDiagonalWins :: "grid \<Rightarrow> error + path list" where
  "findDiagonalWins g =
     (case forEach [0 .. SYMBOLS_PER_REEL - REEL_COUNT] (diagonalFrom g 1) [] of
        Inl e \<Rightarrow> Inl e
      | Inr ws \<Rightarrow>
          forEach (rev [REEL_COUNT - 1 .. SYMBOLS_PER_REEL - 1]) (diagonalFrom g (- 1)) ws)"

subsection \<open>Adjacency search\<close>

text \<open>The elements of a \<open>Set\<close> built from a list, in insertion order.\<close>

fun insertionOrder :: "'a list \<Rightarrow> 'a list \<Rightarrow> 'a list" where
  "insertionOrder seen [] = seen"
| "insertionOrder seen (x # xs) =
     (if x \<in> set seen then insertionOrder seen xs else insertionOrder (seen @ [x]) xs)"

text \<open>\<open>new Set(grid.flat().filter(Boolean))\<close>; \<open>flat\<close> drops the holes of the rows and
  keeps a missing row as one \<open>undefined\<close> element, which the filter drops.\<close>

definition uniqueSymbols :: "grid \<Rightarrow> string list" where
  "uniqueSymbols g =
     insertionOrder []
       (map the (filter truthy
          (concat (map (\<lambda>row. case row of
                              None \<Rightarrow> [None]
                            | Some cs \<Rightarrow> map valueOf (filter (\<lambda>e. e \<noteq> Hole) cs)) g))))"

type_synonym entry = "GridCoord \<times> path"

text \<open>
  One round of the loop over \<open>dc\<close>. The visited set holds the keys \<open>`r,c`\<close>, which
  determine the pair \<open>(r, c)\<close>; the model keeps the pairs.
\<close>

definition visit ::
  "grid \<Rightarrow> string \<Rightarrow> GridCoord \<Rightarrow> path \<Rightarrow> int \<Rightarrow> entry list \<times> GridCoord set
     \<Rightarrow> error + (entry list \<times> GridCoord set)" where
  "visit g symbol coord p dc qv =
     (let nextR = fst coord + 1; nextC = snd coord + dc in
      if nextC \<ge> 0 \<and> nextC < SYMBOLS_PER_REEL \<and> (nextR, nextC) \<notin> snd qv
      then (case cellAt g nextR nextC of
              Inl e \<Rightarrow> Inl e
            | Inr v \<Rightarrow>
                if v = Some symbol
                then Inr (fst qv @ [((nextR, nextC), p @ [(nextR, nextC)])],
                          insert (nextR, nextC) (snd qv))
                else Inr qv)
      else Inr qv)"

definition expand ::
  "grid \<Rightarrow> string \<Rightarrow> GridCoord \<Rightarrow> path \<Rightarrow> entry list \<times> GridCoord set
     \<Rightarrow> error + (entry list \<times> GridCoord set)" where
  "expand g symbol coord p qv = forEach [- 1, 0, 1] (visit g symbol coord p) qv"

text \<open>
  The cells an adjacency search can reach by reads that succeed: used to bound the
  visited set, and by it the number of rounds of the search.
\<close>

definition cellsOf :: "grid \<Rightarrow> GridCoord set" where
  "cellsOf g = {0 ..< int (length g)} \<times> {0 ..< SYMBOLS_PER_REEL}"

lemma visit_grows:
  assumes "visit g symbol coord p dc (q, v) = Inr (q', v')"
  shows "(q' = q \<and> v' = v) \<or> (\<exists>x. x \<in> cellsOf g \<and> x \<notin> v \<and> v' = insert x v)"
proof (cases "snd coord + dc \<ge> 0 \<and> snd coord + dc < SYMBOLS_PER_REEL
              \<and> (fst coord + 1, snd coord + dc) \<notin> v")
  case False
  with assms show ?thesis by (auto simp: visit_def Let_def)
next
  case True
  show ?thesis
  proof (cases "cellAt g (fst coord + 1) (snd coord + dc)")
    case (Inl e)
    with True assms show ?thesis by (simp add: visit_def Let_def)
  next
    case (Inr cv)
    then have "0 \<le> fst coord + 1 \<and> fst coord + 1 < int (length g)"
      by (auto simp: cellAt_def rowAt_def split: if_splits)
    with True have "(fst coord + 1, snd coord + dc) \<in> cellsOf g"
      by (simp add: cellsOf_def)
    with True Inr assms show ?thesis
      by (auto simp: visit_def Let_def split: if_splits)
  qed
qed

lemma expand_grows:
  assumes "expand g symbol coord p (q, v) = Inr (q', v')"
  shows "(q' = q \<and> v' = v) \<or> (v \<subset> v' \<and> v' - v \<subseteq> cellsOf g)"
proof -
  from assms obtain q1 v1 q2 v2 where
    s1: "visit g symbol coord p (- 1) (q, v) = Inr (q1, v1)" and
    s2: "visit g symbol coord p 0 (q1, v1) = Inr (q2, v2)" and
    s3: "visit g symbol coord p 1 (q2, v2) = Inr (q', v')"
    by (auto simp: expand_def split: sum.splits)
  from visit_grows [OF s1] visit_grows [OF s2] visit_grows [OF s3]
  show ?thesis by blast
qed

lemma expand_measure:
  assumes "expand g symbol coord p (q, v) = Inr (q', v')"
  shows "card (cellsOf g - v') < card (cellsOf g - v)
         \<or> (card (cellsOf g - v') = card (cellsOf g - v) \<and> length q' = length q)"
proof -
  have fin: "finite (cellsOf g - v)" by (simp add: cellsOf_def)
  from expand_grows [OF assms] show ?thesis
  proof
    assume "q' = q \<and> v' = v"
    then show ?thesis by simp
  next
    assume h: "v \<subset> v' \<and> v' - v \<subseteq> cellsOf g"
    then obtain x where "x \<in> v'" "x \<notin> v" by blast
    with h have "cellsOf g - v' \<subset> cellsOf g - v" by blast
    with fin show ?thesis by (simp add: psubset_card_mono)
  qed
qed

text \<open>
  The \<open>while\<close> loop of one search: the queue, the visited set and \<open>allPaths\<close>, which
  every search appends to.
\<close>

function bfs ::
  "grid \<Rightarrow> string \<Rightarrow> entry list \<Rightarrow> GridCoord set \<Rightarrow> path list \<Rightarrow> error + path list" where
  "bfs g symbol [] visited allPaths = Inr allPaths"
| "bfs g symbol ((coord, p) # queue) visited allPaths =
     (if fst coord = REEL_COUNT - 1 then bfs g symbol queue visited (allPaths @ [p])
      else (case expand g symbol coord p (queue, visited) of
              Inl e \<Rightarrow> Inl e
            | Inr (queue', visited') \<Rightarrow> bfs g symbol queue' visited' allPaths))"
  by pat_completeness auto
termination
proof (relation "(\<lambda>(g, symbol, queue, visited, allPaths). card (cellsOf g - visited))
                   <*mlex*> measure (\<lambda>(g, symbol, queue, visited, allPaths). length queue)")
  show "wf ((\<lambda>(g, symbol, queue, visited, allPaths). card (cellsOf g - visited))
              <*mlex*> measure (\<lambda>(g, symbol, queue, visited, allPaths). length queue))"
    by (simp add: wf_mlex)
next
  fix g :: grid and symbol :: string and coord :: GridCoord and p :: path
    and queue :: "entry list" and visited :: "GridCoord set" and allPaths :: "path list"
  show "((g, symbol, queue, visited, allPaths @ [p]),
         (g, symbol, (coord, p) # queue, visited, allPaths))
        \<in> (\<lambda>(g, symbol, queue, visited, allPaths). card (cellsOf g - visited))
              <*mlex*> measure (\<lambda>(g, symbol, queue, visited, allPaths). length queue)"
    by (simp add: mlex_iff)
next
  fix g :: grid and symbol :: string and coord :: GridCoord and p :: path
    and queue :: "entry list" and visited :: "GridCoord set" and allPaths :: "path list"
    and x2 :: "entry list \<times> GridCoord set" and queue' :: "entry list"
    and visited' :: "GridCoord set"
  assume "expand g symbol coord p (queue, visited) = Inr x2" and "(queue', visited') = x2"
  then have "expand g symbol coord p (queue, visited) = Inr (queue', visited')" by simp
  from expand_measure [OF this]
  show "((g, symbol, queue', visited', allPaths),
         (g, symbol, (coord, p) # queue, visited, allPaths))
        \<in> (\<lambda>(g, symbol, queue, visited, allPaths). card (cellsOf g - visited))
              <*mlex*> measure (\<lambda>(g, symbol, queue, visited, allPaths). length queue)"
    by (auto simp: mlex_iff)
qed

text \<open>The search from the top-row cell \<open>(0, c)\<close>.\<close>

definition searchFrom :: "grid \<Rightarrow> string \<Rightarrow> int \<Rightarrow> path list \<Rightarrow> error + path list" where
  "searchFrom g symbol c allPaths = bfs g symbol [((0, c), [(0, c)])] {(0, c)} allPaths"

definition findAdjacencyWins :: "grid \<Rightarrow> error + path list" where
  "findAdjacencyWins g =
     forEach (uniqueSymbols g)
       (\<lambda>symbol. forEach [0 .. SYMBOLS_PER_REEL - 1]
          (\<lambda>c allPaths.
             case cellAt g 0 c of
               Inl e \<Rightarrow> Inl e
             | Inr v \<Rightarrow> if v = Some symbol then searchFrom g symbol c allPaths
                        else Inr allPaths))
       []"

subsection \<open>Classification and deduplication\<close>

definition isStraightOrDiagonalPath :: "path \<Rightarrow> bool" where
  "isStraightOrDiagonalPath p =
     (if length p \<le> 1 then True
      else (let deltaC = snd (p ! 1) - snd (p ! 0) in
            list_all (\<lambda>i. \<not> (fst (p ! i) - fst (p ! (i - 1)) \<noteq> 1
                              \<or> snd (p ! i) - snd (p ! (i - 1)) \<noteq> deltaC))
                     [2 ..< length p]))"

text \<open>
  The key of a path: its coordinates sorted by row, then by column (the comparator
  \<open>a.r - b.r || a.c - b.c\<close> is the lexicographic order of the pairs). The source joins
  the sorted coordinates into a string, which determines them; the model keeps the
  sorted list.
\<close>

definition pathKey :: "path \<Rightarrow> GridCoord list" where
  "pathKey p = sort p"

fun dedupeLoop :: "path list \<Rightarrow> GridCoord list set \<Rightarrow> path list \<Rightarrow> path list" where
  "dedupeLoop [] seen result = result"
| "dedupeLoop (p # ps) seen result =
     (if pathKey p \<notin> seen then dedupeLoop ps (insert (pathKey p) seen) (result @ [p])
      else dedupeLoop ps seen result)"

definition dedupePaths :: "path list \<Rightarrow> path list" where
  "dedupePaths ps = dedupeLoop ps {} []"

subsection \<open>The entry points\<close>

text \<open>
  \<open>computeWins\<close> returns its result with the lines it wrote with \<open>console.error\<close>, or
  the error thrown.
\<close>

definition computeWins :: "grid option \<Rightarrow> error + (WinsResult \<times> string list)" where
  "computeWins go =
     (if \<not> isValidGrid go
      then Inr (\<lparr>straight = [], diagonal = [], adjacency = []\<rparr>, [''Invalid grid provided.''])
      else (case findHorizontalWins (the go) of
              Inl e \<Rightarrow> Inl e
            | Inr horizontalWins \<Rightarrow>
          (case findVerticalWins (the go) of
              Inl e \<Rightarrow> Inl e
            | Inr verticalWins \<Rightarrow>
          (case findDiagonalWins (the go) of
              Inl e \<Rightarrow> Inl e
            | Inr diagonalWins \<Rightarrow>
          (case findAdjacencyWins (the go) of
              Inl e \<Rightarrow> Inl e
            | Inr adjacencyWins \<Rightarrow>
                (let straightRaw = horizontalWins @ verticalWins;
                     adjacencyFiltered = filter (\<lambda>p. \<not> isStraightOrDiagonalPath p) adjacencyWins
                 in Inr (\<lparr>straight = dedupePaths straightRaw,
                          diagonal = dedupePaths diagonalWins,
                          adjacency = dedupePaths adjacencyFiltered\<rparr>, [])))))))"

definition checkWin :: "grid option \<Rightarrow> error + (CheckResult \<times> string list)" where
  "checkWin go =
     (case computeWins go of
        Inl e \<Rightarrow> Inl e
      | Inr (w, logged) \<Rightarrow>
          (let allPaths = straight w @ diagonal w @ adjacency w
           in Inr (\<lparr>winningPaths = allPaths, wins = w\<rparr>, logged)))"

section \<open>Grids that pass validation\<close>

text \<open>The cell \<open>(r, c)\<close> of a grid that passed \<open>isValidGrid\<close>.\<close>

definition cellOf :: "grid \<Rightarrow> int \<Rightarrow> int \<Rightarrow> cell" where
  "cellOf g r c = valueOf (the (g ! nat r) ! nat c)"

lemma valid_length: "isValidGrid (Some g) \<Longrightarrow> length g = 4"
  by (simp add: isValidGrid_def REEL_COUNT_def split: if_splits)

lemma valid_row:
  assumes "isValidGrid (Some g)" "0 \<le> r" "r < 4"
  shows "\<exists>cs. g ! nat r = Some cs \<and> length cs = 6"
proof -
  from assms(1) have len: "length g = 4" by (rule valid_length)
  with assms have "nat r < length g" by simp
  then have "g ! nat r \<in> set g" by (rule nth_mem)
  moreover from assms(1) len
  have "\<forall>row \<in> set g. case row of None \<Rightarrow> False | Some cs \<Rightarrow> int (length cs) = SYMBOLS_PER_REEL"
    by (simp add: isValidGrid_def REEL_COUNT_def list_all_iff)
  ultimately show ?thesis
    by (auto simp: SYMBOLS_PER_REEL_def split: option.splits)
qed

lemma rowAt_valid:
  assumes "isValidGrid (Some g)" "0 \<le> r" "r < 4"
  shows "rowAt g r = Inr (the (g ! nat r))" "length (the (g ! nat r)) = 6"
  using valid_row [OF assms] valid_length [OF assms(1)] assms(2,3)
  by (auto simp: rowAt_def)

lemma cellAt_valid:
  assumes "isValidGrid (Some g)" "0 \<le> r" "r < 4" "0 \<le> c" "c < 6"
  shows "cellAt g r c = Inr (cellOf g r c)"
  using rowAt_valid [OF assms(1-3)] assms(4,5)
  by (simp add: cellAt_def cellOf_def)

lemma upto_0_3: "[0 .. 3] = [0, 1, 2, (3::int)]"
  by (simp add: upto_rec1)

lemma upto_1_3: "[1 .. 3] = [1, 2, (3::int)]"
  by (simp add: upto_rec1)

lemma upto_0_5: "[0 .. 5] = [0, 1, 2, 3, 4, (5::int)]"
  by (simp add: upto_rec1)

lemma upto_0_2: "[0 .. 2] = [0, 1, (2::int)]"
  by (simp add: upto_rec1)

lemma upto_3_5: "[3 .. 5] = [3, 4, (5::int)]"
  by (simp add: upto_rec1)

section \<open>Invalid grids\<close>

text \<open>
  Claim C2. When the grid is missing, or its row count is not 4, or one of its rows is
  missing or has a length other than 6, \<open>computeWins\<close> does not throw: it returns the
  three empty collections, and the one line it logs is the diagnostic.
\<close>

theorem computeWins_invalid:
  assumes "go = None
           \<or> (\<exists>g. go = Some g \<and> (length g \<noteq> 4
                 \<or> (\<exists>row \<in> set g. row = None \<or> (\<exists>cs. row = Some cs \<and> length cs \<noteq> 6))))"
  shows "computeWins go =
           Inr (\<lparr>straight = [], diagonal = [], adjacency = []\<rparr>, [''Invalid grid provided.''])"
proof -
  have "\<not> isValidGrid go"
  proof
    assume v: "isValidGrid go"
    then obtain g where g: "go = Some g" by (auto simp: isValidGrid_def split: option.splits)
    with v have len: "length g = 4" by (simp add: valid_length)
    from v g len have rows: "\<forall>row \<in> set g. \<exists>cs. row = Some cs \<and> length cs = 6"
      by (auto simp: isValidGrid_def REEL_COUNT_def SYMBOLS_PER_REEL_def list_all_iff
               split: option.splits)
    from assms g len rows show False by auto
  qed
  then show ?thesis by (simp add: computeWins_def)
qed

text \<open>A grid of four rows whose second row is missing and whose third is too short.\<close>

theorem computeWins_invalid_witness:
  "computeWins (Some [Some (replicate 6 (Symbol ''A'')), None, Some [Symbol ''A''],
                      Some (replicate 6 (Symbol ''A''))]) =
     Inr (\<lparr>straight = [], diagonal = [], adjacency = []\<rparr>, [''Invalid grid provided.''])"
  using computeWins_invalid
    [of "Some [Some (replicate 6 (Symbol ''A'')), None, Some [Symbol ''A''],
               Some (replicate 6 (Symbol ''A''))]"]
  by simp

section \<open>The straight and diagonal scans on a valid grid\<close>

text \<open>
  The paths the scans can emit: row \<open>r\<close> from left to right, column \<open>c\<close> from top to
  bottom, and the full-height diagonal from \<open>(0, c)\<close> with column step \<open>step\<close>.
\<close>

definition horizontalPath :: "int \<Rightarrow> path" where
  "horizontalPath r = [(r, 0), (r, 1), (r, 2), (r, 3), (r, 4), (r, 5)]"

definition verticalPath :: "int \<Rightarrow> path" where
  "verticalPath c = [(0, c), (1, c), (2, c), (3, c)]"

definition diagonalPath :: "int \<Rightarrow> int \<Rightarrow> path" where
  "diagonalPath step c = [(0, c), (1, c + step), (2, c + 2 * step), (3, c + 3 * step)]"

text \<open>
  All cells of a path hold one non-empty symbol: the first cell is truthy and every cell
  equals it.
\<close>

definition sharesSymbol :: "grid \<Rightarrow> path \<Rightarrow> bool" where
  "sharesSymbol g p =
     (truthy (cellOf g (fst (hd p)) (snd (hd p)))
      \<and> (\<forall>x \<in> set p. cellOf g (fst x) (snd x) = cellOf g (fst (hd p)) (snd (hd p))))"

lemma forEach_appends:
  assumes "\<And>x s. x \<in> set xs \<Longrightarrow> body x s = Inr (s @ f x)"
  shows "forEach xs body s = Inr (s @ concat (map f xs))"
  using assms by (induction xs arbitrary: s) auto

lemma concat_if_filter:
  "concat (map (\<lambda>x. if P x then [h x] else []) xs) = map h (filter P xs)"
  by (induction xs) auto

lemma length_six:
  assumes "length cs = 6"
  obtains a0 a1 a2 a3 a4 a5 where "cs = [a0, a1, a2, a3, a4, a5]"
proof -
  from assms have "length cs = Suc (Suc (Suc (Suc (Suc (Suc 0)))))" by simp
  then show ?thesis using that by (auto simp: length_Suc_conv)
qed

text \<open>
  Slot \<open>(r, c)\<close> of a valid grid is a hole.
\<close>

definition holeAt :: "grid \<Rightarrow> int \<Rightarrow> int \<Rightarrow> bool" where
  "holeAt g r c = (the (g ! nat r) ! nat c = Hole)"

text \<open>
  The test of the horizontal scan on row \<open>r\<close> of a valid grid: the first cell is truthy
  and every slot of the row that is not a hole holds the same value.
\<close>

definition rowEvery :: "grid \<Rightarrow> int \<Rightarrow> bool" where
  "rowEvery g r =
     (truthy (cellOf g r 0)
      \<and> (\<forall>c \<in> set [0 .. 5]. holeAt g r c \<or> cellOf g r c = cellOf g r 0))"

lemma row_all_iff:
  assumes "length cs = 6"
  shows "list_all (\<lambda>v. v = a) (map valueOf (filter (\<lambda>e. e \<noteq> Hole) cs))
         = (\<forall>c \<in> set [0 .. 5]. cs ! nat c = Hole \<or> valueOf (cs ! nat c) = a)"
proof -
  from assms obtain a0 a1 a2 a3 a4 a5 where cs: "cs = [a0, a1, a2, a3, a4, a5]"
    by (rule length_six)
  have "list_all (\<lambda>v. v = a) (map valueOf (filter (\<lambda>e. e \<noteq> Hole) cs))
        = (\<forall>e \<in> set cs. e = Hole \<or> valueOf e = a)"
    by (auto simp: list_all_iff)
  also have "\<dots> = (\<forall>c \<in> set [0 .. 5]. cs ! nat c = Hole \<or> valueOf (cs ! nat c) = a)"
    by (simp add: cs upto_0_5 eval_nat_numeral)
  finally show ?thesis .
qed

lemma horizontal_body:
  assumes v: "isValidGrid (Some g)" and r: "r \<in> set [0 .. 3]"
  shows "(case cellAt g r 0 of
            Inl e \<Rightarrow> Inl e
          | Inr firstSymbol \<Rightarrow>
              if \<not> truthy firstSymbol then Inr ws
              else (case rowAt g r of
                      Inl e \<Rightarrow> Inl e
                    | Inr cs \<Rightarrow>
                        if list_all (\<lambda>symbol. symbol = firstSymbol)
                                    (map valueOf (filter (\<lambda>e. e \<noteq> Hole) cs))
                        then Inr (ws @ [map (\<lambda>c. (r, c)) [0 .. SYMBOLS_PER_REEL - 1]])
                        else Inr ws))
         = Inr (ws @ (if rowEvery g r then [horizontalPath r] else []))"
proof -
  from r have r': "0 \<le> r" "r < 4" by auto
  define same where
    "same \<longleftrightarrow> (\<forall>c \<in> set [0 .. 5]. holeAt g r c \<or> cellOf g r c = cellOf g r 0)"
  have p: "map (\<lambda>c. (r, c)) [0 .. SYMBOLS_PER_REEL - 1] = horizontalPath r"
    by (simp add: SYMBOLS_PER_REEL_def horizontalPath_def upto_0_5)
  have s: "rowEvery g r = (truthy (cellOf g r 0) \<and> same)"
    by (simp add: rowEvery_def same_def)
  have a: "list_all (\<lambda>symbol. symbol = cellOf g r 0)
             (map valueOf (filter (\<lambda>e. e \<noteq> Hole) (the (g ! nat r)))) = same"
    unfolding same_def holeAt_def cellOf_def
    by (rule row_all_iff [OF rowAt_valid(2) [OF v r']])
  have c0: "cellAt g r 0 = Inr (cellOf g r 0)"
    using cellAt_valid [OF v r', of 0] by simp
  show ?thesis
    by (simp add: c0 rowAt_valid(1) [OF v r'] a p s)
qed

text \<open>Without a hole in the row, \<open>every\<close> sees all six cells.\<close>

lemma rowEvery_dense:
  assumes "\<forall>c \<in> set [0 .. 5]. \<not> holeAt g r c"
  shows "rowEvery g r = sharesSymbol g (horizontalPath r)"
proof -
  have "sharesSymbol g (horizontalPath r)
        = (truthy (cellOf g r 0) \<and> (\<forall>c \<in> set [0 .. 5]. cellOf g r c = cellOf g r 0))"
    by (simp add: sharesSymbol_def horizontalPath_def upto_0_5)
  with assms show ?thesis by (auto simp: rowEvery_def)
qed

lemma rows_range: "[0 .. REEL_COUNT - 1] = [0 .. 3]" "[1 .. REEL_COUNT - 1] = [1 .. 3]"
  by (simp_all add: REEL_COUNT_def)

lemma cols_range: "[0 .. SYMBOLS_PER_REEL - 1] = [0 .. 5]"
  by (simp add: SYMBOLS_PER_REEL_def)

lemma findHorizontalWins_valid:
  assumes v: "isValidGrid (Some g)"
  shows "findHorizontalWins g = Inr (map horizontalPath (filter (rowEvery g) [0 .. 3]))"
proof -
  have "findHorizontalWins g
        = Inr ([] @ concat (map (\<lambda>r. if rowEvery g r then [horizontalPath r] else []) [0 .. 3]))"
    unfolding findHorizontalWins_def rows_range
    by (rule forEach_appends) (simp only: horizontal_body [OF v])
  then show ?thesis by (simp add: concat_if_filter)
qed

lemma columnMatches_valid:
  assumes v: "isValidGrid (Some g)" and c: "0 \<le> c" "c < 6"
  shows "columnMatches g a c [1, 2, 3]
         = Inr (cellOf g 1 c = a \<and> cellOf g 2 c = a \<and> cellOf g 3 c = a)"
proof -
  have r1: "cellAt g 1 c = Inr (cellOf g 1 c)" using cellAt_valid [OF v _ _ c, of 1] by simp
  have r2: "cellAt g 2 c = Inr (cellOf g 2 c)" using cellAt_valid [OF v _ _ c, of 2] by simp
  have r3: "cellAt g 3 c = Inr (cellOf g 3 c)" using cellAt_valid [OF v _ _ c, of 3] by simp
  show ?thesis by (simp add: r1 r2 r3)
qed

lemma vertical_body:
  assumes v: "isValidGrid (Some g)" and c: "c \<in> set [0 .. 5]"
  shows "(case cellAt g 0 c of
            Inl e \<Rightarrow> Inl e
          | Inr firstSymbol \<Rightarrow>
              if \<not> truthy firstSymbol then Inr ws
              else (case columnMatches g firstSymbol c [1 .. REEL_COUNT - 1] of
                      Inl e \<Rightarrow> Inl e
                    | Inr allMatch \<Rightarrow>
                        if allMatch
                        then Inr (ws @ [map (\<lambda>r. (r, c)) [0 .. REEL_COUNT - 1]])
                        else Inr ws))
         = Inr (ws @ (if sharesSymbol g (verticalPath c) then [verticalPath c] else []))"
proof -
  from c have c': "0 \<le> c" "c < 6" by auto
  define same where
    "same \<longleftrightarrow> (cellOf g 1 c = cellOf g 0 c \<and> cellOf g 2 c = cellOf g 0 c
                \<and> cellOf g 3 c = cellOf g 0 c)"
  have p: "map (\<lambda>r. (r, c)) [0 .. REEL_COUNT - 1] = verticalPath c"
    by (simp add: REEL_COUNT_def verticalPath_def upto_0_3)
  have s: "sharesSymbol g (verticalPath c) = (truthy (cellOf g 0 c) \<and> same)"
    by (simp add: sharesSymbol_def verticalPath_def same_def)
  have m: "columnMatches g (cellOf g 0 c) c [1 .. REEL_COUNT - 1] = Inr same"
    using columnMatches_valid [OF v c'] by (simp add: REEL_COUNT_def upto_1_3 same_def)
  have c0: "cellAt g 0 c = Inr (cellOf g 0 c)"
    using cellAt_valid [OF v _ _ c', of 0] by simp
  show ?thesis
    by (simp add: c0 m p s)
qed

lemma findVerticalWins_valid:
  assumes v: "isValidGrid (Some g)"
  shows "findVerticalWins g = Inr (map verticalPath (filter (\<lambda>c. sharesSymbol g (verticalPath c)) [0 .. 5]))"
proof -
  have "findVerticalWins g
        = Inr ([] @ concat (map (\<lambda>c. if sharesSymbol g (verticalPath c) then [verticalPath c] else []) [0 .. 5]))"
    unfolding findVerticalWins_def cols_range
    by (rule forEach_appends) (simp only: vertical_body [OF v])
  then show ?thesis by (simp add: concat_if_filter)
qed

lemma diagonalRun_valid:
  assumes v: "isValidGrid (Some g)"
    and c1: "0 \<le> c + step" "c + step < 6"
    and c2: "0 \<le> c + 2 * step" "c + 2 * step < 6"
    and c3: "0 \<le> c + 3 * step" "c + 3 * step < 6"
  shows "diagonalRun g a c step [1, 2, 3] [(0, c)]
         = Inr (if cellOf g 1 (c + step) \<noteq> a then (False, [(0, c)])
                else if cellOf g 2 (c + 2 * step) \<noteq> a then (False, [(0, c), (1, c + step)])
                else if cellOf g 3 (c + 3 * step) \<noteq> a
                     then (False, [(0, c), (1, c + step), (2, c + 2 * step)])
                else (True, diagonalPath step c))"
proof -
  have r1: "cellAt g 1 (c + step) = Inr (cellOf g 1 (c + step))"
    using cellAt_valid [OF v _ _ c1, of 1] by simp
  have r2: "cellAt g 2 (c + step * 2) = Inr (cellOf g 2 (c + 2 * step))"
    using cellAt_valid [OF v _ _ c2, of 2] by (simp add: mult.commute)
  have r3: "cellAt g 3 (c + step * 3) = Inr (cellOf g 3 (c + 3 * step))"
    using cellAt_valid [OF v _ _ c3, of 3] by (simp add: mult.commute)
  show ?thesis by (simp add: r1 r2 r3 diagonalPath_def mult.commute)
qed

lemma diagonal_body:
  assumes v: "isValidGrid (Some g)"
    and c0: "0 \<le> c" "c < 6"
    and c3: "0 \<le> c + 3 * step" "c + 3 * step < 6"
    and st: "step = 1 \<or> step = - 1"
  shows "diagonalFrom g step c ws
         = Inr (ws @ (if sharesSymbol g (diagonalPath step c) then [diagonalPath step c] else []))"
proof -
  from c0 c3 st have c1: "0 \<le> c + step" "c + step < 6"
    and c2: "0 \<le> c + 2 * step" "c + 2 * step < 6" by auto
  define same where
    "same \<longleftrightarrow> (cellOf g 1 (c + step) = cellOf g 0 c \<and> cellOf g 2 (c + 2 * step) = cellOf g 0 c
                \<and> cellOf g 3 (c + 3 * step) = cellOf g 0 c)"
  have s: "sharesSymbol g (diagonalPath step c) = (truthy (cellOf g 0 c) \<and> same)"
    by (simp add: sharesSymbol_def diagonalPath_def same_def)
  have m: "diagonalRun g (cellOf g 0 c) c step [1 .. REEL_COUNT - 1] [(0, c)]
           = Inr (True, diagonalPath step c) \<and> same
           \<or> (\<not> same \<and> (\<exists>p. diagonalRun g (cellOf g 0 c) c step [1 .. REEL_COUNT - 1] [(0, c)]
                              = Inr (False, p)))"
    using diagonalRun_valid [OF v c1 c2 c3, of "cellOf g 0 c"]
    by (auto simp: REEL_COUNT_def upto_1_3 same_def)
  have c0': "cellAt g 0 c = Inr (cellOf g 0 c)"
    using cellAt_valid [OF v _ _ c0, of 0] by simp
  from m show ?thesis
    by (auto simp: diagonalFrom_def c0' s)
qed

lemma findDiagonalWins_valid:
  assumes v: "isValidGrid (Some g)"
  shows "findDiagonalWins g
         = Inr (filter (sharesSymbol g) (map (diagonalPath 1) [0, 1, 2] @ map (diagonalPath (- 1)) [5, 4, 3]))"
proof -
  have up: "forEach [0 .. SYMBOLS_PER_REEL - REEL_COUNT] (diagonalFrom g 1) []
            = Inr ([] @ concat (map (\<lambda>c. if sharesSymbol g (diagonalPath 1 c) then [diagonalPath 1 c] else []) [0, 1, 2]))"
  proof -
    have "[0 .. SYMBOLS_PER_REEL - REEL_COUNT] = [0, 1, 2]"
      by (simp add: SYMBOLS_PER_REEL_def REEL_COUNT_def upto_0_2)
    then show ?thesis
      by (simp only:) (rule forEach_appends, rule diagonal_body [OF v], auto)
  qed
  have down: "\<And>ws. forEach (rev [REEL_COUNT - 1 .. SYMBOLS_PER_REEL - 1]) (diagonalFrom g (- 1)) ws
            = Inr (ws @ concat (map (\<lambda>c. if sharesSymbol g (diagonalPath (- 1) c) then [diagonalPath (- 1) c] else []) [5, 4, 3]))"
  proof -
    fix ws
    have "rev [REEL_COUNT - 1 .. SYMBOLS_PER_REEL - 1] = [5, 4, 3]"
      by (simp add: SYMBOLS_PER_REEL_def REEL_COUNT_def upto_3_5)
    then show "forEach (rev [REEL_COUNT - 1 .. SYMBOLS_PER_REEL - 1]) (diagonalFrom g (- 1)) ws
            = Inr (ws @ concat (map (\<lambda>c. if sharesSymbol g (diagonalPath (- 1) c) then [diagonalPath (- 1) c] else []) [5, 4, 3]))"
      by (simp only:) (rule forEach_appends, rule diagonal_body [OF v], auto)
  qed
  show ?thesis
    by (simp add: findDiagonalWins_def up down concat_if_filter filter_map comp_def)
qed

section \<open>Deduplication\<close>

text \<open>
  The paths of a list whose coordinate set no earlier path of the list has, in the order
  of the list.
\<close>

definition firstOccurrences :: "path list \<Rightarrow> path list" where
  "firstOccurrences ps =
     map (nth ps) (filter (\<lambda>i. \<forall>j \<in> set [0 ..< i]. set (ps ! j) \<noteq> set (ps ! i)) [0 ..< length ps])"

lemma dedupeLoop_result:
  "dedupeLoop ps seen result = result @ dedupeLoop ps seen []"
proof (induction ps arbitrary: seen result)
  case Nil
  show ?case by simp
next
  case (Cons p ps)
  show ?case
    using Cons.IH [of "insert (pathKey p) seen" "result @ [p]"]
          Cons.IH [of "insert (pathKey p) seen" "[p]"] Cons.IH [of seen result]
    by simp
qed

text \<open>
  Index \<open>i\<close> is kept by the loop started with the keys \<open>seen\<close>: its key is new and no
  earlier path has it.
\<close>

definition isFirst :: "GridCoord list set \<Rightarrow> path list \<Rightarrow> nat \<Rightarrow> bool" where
  "isFirst seen ps i =
     (pathKey (ps ! i) \<notin> seen \<and> (\<forall>j < i. pathKey (ps ! j) \<noteq> pathKey (ps ! i)))"

lemma isFirst_0: "isFirst seen (p # ps) 0 = (pathKey p \<notin> seen)"
  by (simp add: isFirst_def)

lemma isFirst_Suc:
  "isFirst seen (p # ps) (Suc i)
   = (if pathKey p \<in> seen then isFirst seen ps i else isFirst (insert (pathKey p) seen) ps i)"
proof -
  have "(\<forall>j < Suc i. pathKey ((p # ps) ! j) \<noteq> pathKey (ps ! i))
        = (pathKey p \<noteq> pathKey (ps ! i) \<and> (\<forall>j < i. pathKey (ps ! j) \<noteq> pathKey (ps ! i)))"
    by (metis less_Suc_eq_0_disj Suc_less_eq zero_less_Suc nth_Cons_0 nth_Cons_Suc)
  then show ?thesis by (auto simp: isFirst_def)
qed

lemma dedupeLoop_filter:
  "dedupeLoop ps seen [] = map (nth ps) (filter (isFirst seen ps) [0 ..< length ps])"
proof (induction ps arbitrary: seen)
  case Nil
  show ?case by simp
next
  case (Cons p ps)
  have shift: "[0 ..< length (p # ps)] = 0 # map Suc [0 ..< length ps]"
    by (simp add: upt_conv_Cons map_Suc_upt del: upt_Suc)
  show ?case
  proof (cases "pathKey p \<in> seen")
    case True
    then have "dedupeLoop (p # ps) seen [] = dedupeLoop ps seen []" by simp
    also have "\<dots> = map (nth ps) (filter (isFirst seen ps) [0 ..< length ps])"
      by (rule Cons.IH)
    also have "\<dots> = map (nth (p # ps)) (filter (isFirst seen (p # ps)) [0 ..< length (p # ps)])"
      using True by (simp only: shift) (simp add: filter_map comp_def isFirst_0 isFirst_Suc)
    finally show ?thesis .
  next
    case False
    then have "dedupeLoop (p # ps) seen [] = p # dedupeLoop ps (insert (pathKey p) seen) []"
      using dedupeLoop_result [of ps "insert (pathKey p) seen" "[p]"] by simp
    also have "dedupeLoop ps (insert (pathKey p) seen) []
       = map (nth ps) (filter (isFirst (insert (pathKey p) seen) ps) [0 ..< length ps])"
      by (rule Cons.IH)
    also have "p # \<dots> = map (nth (p # ps)) (filter (isFirst seen (p # ps)) [0 ..< length (p # ps)])"
      using False by (simp only: shift) (simp add: filter_map comp_def isFirst_0 isFirst_Suc)
    finally show ?thesis .
  qed
qed

lemma pathKey_sorted: "sorted p \<Longrightarrow> pathKey p = p"
  by (simp add: pathKey_def sort_key_id_if_sorted)

lemma pathKey_eq_iff:
  assumes "distinct p" "distinct q"
  shows "pathKey p = pathKey q \<longleftrightarrow> set p = set q"
proof
  assume "pathKey p = pathKey q"
  then have "set (sort p) = set (sort q)" by (simp add: pathKey_def)
  then show "set p = set q" by simp
next
  assume "set p = set q"
  with assms show "pathKey p = pathKey q"
    unfolding pathKey_def
    by (intro sorted_distinct_set_unique) simp_all
qed

lemma dedupePaths_firstOccurrences:
  assumes "\<forall>p \<in> set ps. distinct p"
  shows "dedupePaths ps = firstOccurrences ps"
proof -
  have "filter (isFirst {} ps) [0 ..< length ps]
        = filter (\<lambda>i. \<forall>j \<in> set [0 ..< i]. set (ps ! j) \<noteq> set (ps ! i)) [0 ..< length ps]"
  proof (rule filter_cong [OF refl])
    fix i assume "i \<in> set [0 ..< length ps]"
    then have i: "i < length ps" by simp
    have "\<And>j. j < i \<Longrightarrow> (pathKey (ps ! j) = pathKey (ps ! i)) = (set (ps ! j) = set (ps ! i))"
      using assms i by (intro pathKey_eq_iff) auto
    then show "isFirst {} ps i
               = (\<forall>j \<in> set [0 ..< i]. set (ps ! j) \<noteq> set (ps ! i))"
      by (auto simp: isFirst_def)
  qed
  then show ?thesis
    by (simp only: dedupePaths_def dedupeLoop_filter firstOccurrences_def)
qed

lemma dedupePaths_id:
  assumes "distinct ps" "\<forall>p \<in> set ps. sorted p"
  shows "dedupePaths ps = ps"
proof -
  have "filter (isFirst {} ps) [0 ..< length ps] = [0 ..< length ps]"
  proof (rule filter_True, clarify)
    fix i assume i: "i \<in> set [0 ..< length ps]"
    have "\<And>j. j < i \<Longrightarrow> pathKey (ps ! j) \<noteq> pathKey (ps ! i)"
    proof -
      fix j assume j: "j < i"
      with i assms(2) have "pathKey (ps ! j) = ps ! j" "pathKey (ps ! i) = ps ! i"
        by (auto intro!: pathKey_sorted)
      moreover from i j assms(1) have "ps ! j \<noteq> ps ! i"
        by (auto simp: distinct_conv_nth)
      ultimately show "pathKey (ps ! j) \<noteq> pathKey (ps ! i)" by simp
    qed
    then show "isFirst {} ps i"
      by (simp add: isFirst_def)
  qed
  then show ?thesis
    by (simp only: dedupePaths_def dedupeLoop_filter map_nth)
qed

lemma dedupePaths_set:
  assumes "\<forall>p \<in> set ps. sorted p"
  shows "set (dedupePaths ps) = set ps"
proof
  show "set (dedupePaths ps) \<subseteq> set ps"
    by (auto simp: dedupePaths_def dedupeLoop_filter)
next
  show "set ps \<subseteq> set (dedupePaths ps)"
  proof
    fix p assume "p \<in> set ps"
    then obtain i where i: "i < length ps" "ps ! i = p" by (auto simp: in_set_conv_nth)
    define k where "k = (LEAST j. j < length ps \<and> ps ! j = p)"
    from i have "i < length ps \<and> ps ! i = p" by simp
    then have k: "k < length ps \<and> ps ! k = p"
      unfolding k_def by (rule LeastI)
    have least: "\<And>j. j < k \<Longrightarrow> ps ! j \<noteq> p"
    proof
      fix j assume "j < k" "ps ! j = p"
      with k have "j < length ps \<and> ps ! j = p" by simp
      then have "k \<le> j" unfolding k_def by (rule Least_le)
      with \<open>j < k\<close> show False by simp
    qed
    have "\<And>j. j < k \<Longrightarrow> pathKey (ps ! j) \<noteq> pathKey (ps ! k)"
    proof -
      fix j assume j: "j < k"
      with k assms have "pathKey (ps ! j) = ps ! j" "pathKey (ps ! k) = ps ! k"
        by (auto intro!: pathKey_sorted)
      with least [OF j] k show "pathKey (ps ! j) \<noteq> pathKey (ps ! k)" by simp
    qed
    with k have "k \<in> set (filter (isFirst {} ps) [0 ..< length ps])"
      by (simp add: isFirst_def)
    then have "ps ! k \<in> set (dedupePaths ps)"
      unfolding dedupePaths_def dedupeLoop_filter by (simp only: set_map) (rule imageI)
    with k show "p \<in> set (dedupePaths ps)" by simp
  qed
qed

section \<open>The invariant of the adjacency search\<close>

text \<open>
  A cell inside the 4 x 6 grid that holds \<open>symbol\<close>.
\<close>

definition okCell :: "grid \<Rightarrow> string \<Rightarrow> GridCoord \<Rightarrow> bool" where
  "okCell g symbol x =
     (0 \<le> fst x \<and> fst x < 4 \<and> 0 \<le> snd x \<and> snd x < 6 \<and> cellOf g (fst x) (snd x) = Some symbol)"

text \<open>
  One step of a connecting path: one row down, the column changed by -1, 0 or +1.
\<close>

definition stepOk :: "GridCoord \<Rightarrow> GridCoord \<Rightarrow> bool" where
  "stepOk x y = (fst y = fst x + 1 \<and> snd y - snd x \<in> {- 1, 0, 1})"

fun stepsDown :: "path \<Rightarrow> bool" where
  "stepsDown [] = True"
| "stepsDown [x] = True"
| "stepsDown (x # y # zs) = (stepOk x y \<and> stepsDown (y # zs))"

text \<open>
  A path of matching cells from the top-row cell \<open>(0, c)\<close> downwards.
\<close>

definition chain :: "grid \<Rightarrow> string \<Rightarrow> int \<Rightarrow> path \<Rightarrow> bool" where
  "chain g symbol c p =
     (p \<noteq> [] \<and> hd p = (0, c) \<and> stepsDown p \<and> (\<forall>x \<in> set p. okCell g symbol x))"

text \<open>
  The neighbour of \<open>x\<close> in the next row, at column offset \<open>dc\<close>.
\<close>

definition child :: "GridCoord \<Rightarrow> int \<Rightarrow> GridCoord" where
  "child x dc = (fst x + 1, snd x + dc)"

text \<open>
  Every matching neighbour of \<open>x\<close> at an offset in \<open>D\<close> has been visited.
\<close>

definition closedAt :: "grid \<Rightarrow> string \<Rightarrow> GridCoord set \<Rightarrow> GridCoord \<Rightarrow> int set \<Rightarrow> bool" where
  "closedAt g symbol v x D = (\<forall>dc \<in> D. okCell g symbol (child x dc) \<longrightarrow> child x dc \<in> v)"

text \<open>
  What holds of the queue, the completed paths \<open>new\<close> of this search and the visited set
  \<open>v\<close> throughout: every entry carries a chain that ends at its cell, every completed path
  is a chain that ends in the bottom row, the end cells are visited and pairwise different,
  and only matching cells are visited.
\<close>

definition entriesOk :: "grid \<Rightarrow> string \<Rightarrow> int \<Rightarrow> entry list \<Rightarrow> path list \<Rightarrow> GridCoord set \<Rightarrow> bool" where
  "entriesOk g symbol c q new v =
     ((0, c) \<in> v
      \<and> (\<forall>e \<in> set q. chain g symbol c (snd e) \<and> last (snd e) = fst e \<and> fst e \<in> v)
      \<and> (\<forall>p \<in> set new. chain g symbol c p \<and> fst (last p) = 3 \<and> last p \<in> v)
      \<and> distinct (map fst q @ map last new)
      \<and> (\<forall>x \<in> v. okCell g symbol x))"

text \<open>
  The invariant between two rounds of the loop: every visited cell is still queued, or
  ends a completed path, or has all its matching neighbours visited.
\<close>

definition bfsInv :: "grid \<Rightarrow> string \<Rightarrow> int \<Rightarrow> entry list \<Rightarrow> GridCoord set \<Rightarrow> path list \<Rightarrow> bool" where
  "bfsInv g symbol c q v new =
     (entriesOk g symbol c q new v
      \<and> (\<forall>x \<in> v. x \<in> fst ` set q \<or> x \<in> last ` set new
                  \<or> (fst x \<noteq> 3 \<and> closedAt g symbol v x {- 1, 0, 1})))"

text \<open>
  The invariant while \<open>coord\<close> is expanded, the offsets in \<open>D\<close> being done.
\<close>

definition expInv ::
  "grid \<Rightarrow> string \<Rightarrow> int \<Rightarrow> GridCoord \<Rightarrow> path \<Rightarrow> int set \<Rightarrow> entry list \<Rightarrow> GridCoord set \<Rightarrow> path list \<Rightarrow> bool" where
  "expInv g symbol c coord p D q v new =
     (entriesOk g symbol c q new v
      \<and> chain g symbol c p \<and> last p = coord \<and> coord \<in> v \<and> fst coord \<noteq> 3
      \<and> closedAt g symbol v coord D
      \<and> (\<forall>x \<in> v. x = coord \<or> x \<in> fst ` set q \<or> x \<in> last ` set new
                  \<or> (fst x \<noteq> 3 \<and> closedAt g symbol v x {- 1, 0, 1})))"

lemma stepsDown_snoc:
  "p \<noteq> [] \<Longrightarrow> stepsDown (p @ [x]) = (stepsDown p \<and> stepOk (last p) x)"
proof (induction p rule: stepsDown.induct)
  case 1
  then show ?case by simp
next
  case (2 y)
  show ?case by simp
next
  case (3 a b zs)
  then have "stepsDown ((b # zs) @ [x]) = (stepsDown (b # zs) \<and> stepOk (last (b # zs)) x)"
    by simp
  then show ?case by auto
qed

lemma stepOk_child: "dc \<in> {- 1, 0, 1} \<Longrightarrow> stepOk x (child x dc)"
  by (simp add: stepOk_def child_def)

lemma chain_snoc:
  assumes "chain g symbol c p" "okCell g symbol (child (last p) dc)" "dc \<in> {- 1, 0, 1}"
  shows "chain g symbol c (p @ [child (last p) dc])"
proof -
  from assms(1) have p: "p \<noteq> []" "hd p = (0, c)" "stepsDown p" "\<forall>x \<in> set p. okCell g symbol x"
    by (simp_all add: chain_def)
  from p(1,3) stepOk_child [OF assms(3)] have "stepsDown (p @ [child (last p) dc])"
    by (simp add: stepsDown_snoc)
  with p assms(2) show ?thesis by (simp add: chain_def)
qed

lemma closedAt_mono: "closedAt g symbol v x D \<Longrightarrow> v \<subseteq> v' \<Longrightarrow> closedAt g symbol v' x D"
  by (auto simp: closedAt_def)

lemma closedAt_insert:
  "closedAt g symbol v x (insert dc D)
   = ((okCell g symbol (child x dc) \<longrightarrow> child x dc \<in> v) \<and> closedAt g symbol v x D)"
  by (auto simp: closedAt_def)

text \<open>Popping a completed path.\<close>

lemma bfsInv_complete:
  assumes "bfsInv g symbol c ((coord, p) # q) v new" "fst coord = 3"
  shows "bfsInv g symbol c q v (new @ [p])"
proof -
  from assms(1) have e: "entriesOk g symbol c ((coord, p) # q) new v"
    and cl: "\<forall>x \<in> v. x \<in> fst ` set ((coord, p) # q) \<or> x \<in> last ` set new
                  \<or> (fst x \<noteq> 3 \<and> closedAt g symbol v x {- 1, 0, 1})"
    by (simp_all add: bfsInv_def)
  from e assms(2) have e': "entriesOk g symbol c q (new @ [p]) v"
    by (auto simp: entriesOk_def)
  from e have "last p = coord" by (simp add: entriesOk_def)
  with cl have "\<forall>x \<in> v. x \<in> fst ` set q \<or> x \<in> last ` set (new @ [p])
                  \<or> (fst x \<noteq> 3 \<and> closedAt g symbol v x {- 1, 0, 1})"
    by auto
  with e' show ?thesis by (simp add: bfsInv_def)
qed

lemma bfsInv_pop:
  assumes "bfsInv g symbol c ((coord, p) # q) v new" "fst coord \<noteq> 3"
  shows "expInv g symbol c coord p {} q v new"
proof -
  from assms(1) have e: "entriesOk g symbol c ((coord, p) # q) new v"
    and cl: "\<forall>x \<in> v. x \<in> fst ` set ((coord, p) # q) \<or> x \<in> last ` set new
                  \<or> (fst x \<noteq> 3 \<and> closedAt g symbol v x {- 1, 0, 1})"
    by (simp_all add: bfsInv_def)
  from e have e': "entriesOk g symbol c q new v"
    and p: "chain g symbol c p" "last p = coord" "coord \<in> v"
    by (auto simp: entriesOk_def)
  from cl have "\<forall>x \<in> v. x = coord \<or> x \<in> fst ` set q \<or> x \<in> last ` set new
                  \<or> (fst x \<noteq> 3 \<and> closedAt g symbol v x {- 1, 0, 1})"
    by auto
  with e' p assms(2) show ?thesis by (simp add: expInv_def closedAt_def)
qed

lemma expInv_done:
  assumes "expInv g symbol c coord p {- 1, 0, 1} q v new"
  shows "bfsInv g symbol c q v new"
proof -
  from assms have e: "entriesOk g symbol c q new v"
    and co: "fst coord \<noteq> 3" "closedAt g symbol v coord {- 1, 0, 1}"
    and cl: "\<forall>x \<in> v. x = coord \<or> x \<in> fst ` set q \<or> x \<in> last ` set new
                  \<or> (fst x \<noteq> 3 \<and> closedAt g symbol v x {- 1, 0, 1})"
    by (simp_all add: expInv_def)
  have "\<forall>x \<in> v. x \<in> fst ` set q \<or> x \<in> last ` set new
                  \<or> (fst x \<noteq> 3 \<and> closedAt g symbol v x {- 1, 0, 1})"
  proof
    fix x assume "x \<in> v"
    with cl have "x = coord \<or> x \<in> fst ` set q \<or> x \<in> last ` set new
                  \<or> (fst x \<noteq> 3 \<and> closedAt g symbol v x {- 1, 0, 1})" by (rule bspec)
    with co show "x \<in> fst ` set q \<or> x \<in> last ` set new
                  \<or> (fst x \<noteq> 3 \<and> closedAt g symbol v x {- 1, 0, 1})" by blast
  qed
  with e show ?thesis by (simp add: bfsInv_def)
qed

lemma visit_valid:
  assumes v: "isValidGrid (Some g)" and r: "0 \<le> fst coord" "fst coord < 3"
  shows "visit g symbol coord p dc (q, vs)
         = Inr (if okCell g symbol (child coord dc) \<and> child coord dc \<notin> vs
                then (q @ [(child coord dc, p @ [child coord dc])], insert (child coord dc) vs)
                else (q, vs))"
proof (cases "0 \<le> snd coord + dc \<and> snd coord + dc < 6")
  case False
  then have "\<not> okCell g symbol (child coord dc)" by (auto simp: okCell_def child_def)
  with False show ?thesis by (auto simp: visit_def SYMBOLS_PER_REEL_def)
next
  case True
  from r have "0 \<le> fst coord + 1" "fst coord + 1 < 4" by simp_all
  from cellAt_valid [OF v this] True
  have rd: "cellAt g (fst coord + 1) (snd coord + dc) = Inr (cellOf g (fst coord + 1) (snd coord + dc))"
    by simp
  from r True have ok: "okCell g symbol (child coord dc)
      = (cellOf g (fst coord + 1) (snd coord + dc) = Some symbol)"
    by (simp add: okCell_def child_def)
  show ?thesis
    by (simp add: visit_def Let_def SYMBOLS_PER_REEL_def rd ok True) (simp add: child_def)
qed

lemma expInv_visit:
  assumes inv: "expInv g symbol c coord p D q vs new" and dc: "dc \<in> {- 1, 0, 1}"
  shows "expInv g symbol c coord p (insert dc D)
           (if okCell g symbol (child coord dc) \<and> child coord dc \<notin> vs
            then q @ [(child coord dc, p @ [child coord dc])] else q)
           (if okCell g symbol (child coord dc) \<and> child coord dc \<notin> vs
            then insert (child coord dc) vs else vs)
           new"
proof (cases "okCell g symbol (child coord dc) \<and> child coord dc \<notin> vs")
  case False
  with inv show ?thesis by (auto simp: expInv_def closedAt_insert)
next
  case True
  define x where "x = child coord dc"
  from True have ok: "okCell g symbol x" and fresh: "x \<notin> vs" by (simp_all add: x_def)
  from inv have e: "entriesOk g symbol c q new vs"
    and p: "chain g symbol c p" "last p = coord" "coord \<in> vs" "fst coord \<noteq> 3"
    and cd: "closedAt g symbol vs coord D"
    and cl: "\<forall>y \<in> vs. y = coord \<or> y \<in> fst ` set q \<or> y \<in> last ` set new
                  \<or> (fst y \<noteq> 3 \<and> closedAt g symbol vs y {- 1, 0, 1})"
    by (simp_all add: expInv_def)
  from chain_snoc [of g symbol c p dc] p(1,2) ok dc have ch: "chain g symbol c (p @ [x])"
    by (simp add: x_def)
  from e have e1: "(0, c) \<in> vs"
    and e2: "\<forall>e \<in> set q. chain g symbol c (snd e) \<and> last (snd e) = fst e \<and> fst e \<in> vs"
    and e3: "\<forall>p \<in> set new. chain g symbol c p \<and> fst (last p) = 3 \<and> last p \<in> vs"
    and e4: "distinct (map fst q @ map last new)"
    and e5: "\<forall>x \<in> vs. okCell g symbol x"
    by (simp_all add: entriesOk_def)
  from e2 fresh have nq: "x \<notin> fst ` set q" by auto
  from e3 fresh have nn: "x \<notin> last ` set new" by auto
  from e4 nq nn have d: "distinct (map fst (q @ [(x, p @ [x])]) @ map last new)" by auto
  from e1 e2 e3 e5 ch ok d have e': "entriesOk g symbol c (q @ [(x, p @ [x])]) new (insert x vs)"
    by (auto simp: entriesOk_def)
  have sub: "vs \<subseteq> insert x vs" by auto
  from cd have cd': "closedAt g symbol (insert x vs) coord (insert dc D)"
    by (auto simp: closedAt_def x_def)
  have cl': "\<forall>y \<in> insert x vs. y = coord \<or> y \<in> fst ` set (q @ [(x, p @ [x])]) \<or> y \<in> last ` set new
                  \<or> (fst y \<noteq> 3 \<and> closedAt g symbol (insert x vs) y {- 1, 0, 1})"
  proof
    fix y assume y: "y \<in> insert x vs"
    show "y = coord \<or> y \<in> fst ` set (q @ [(x, p @ [x])]) \<or> y \<in> last ` set new
          \<or> (fst y \<noteq> 3 \<and> closedAt g symbol (insert x vs) y {- 1, 0, 1})"
    proof (cases "y = x")
      case True
      then show ?thesis by simp
    next
      case False
      with y have "y \<in> vs" by simp
      with cl have "y = coord \<or> y \<in> fst ` set q \<or> y \<in> last ` set new
                  \<or> (fst y \<noteq> 3 \<and> closedAt g symbol vs y {- 1, 0, 1})" by (rule bspec)
      then show ?thesis using closedAt_mono [OF _ sub, of g symbol y "{- 1, 0, 1}"] by auto
    qed
  qed
  from e' p ch cd' cl' have "expInv g symbol c coord p (insert dc D) (q @ [(x, p @ [x])]) (insert x vs) new"
    by (simp add: expInv_def)
  with True show ?thesis by (simp add: x_def)
qed

text \<open>
  What one finished search has collected: chains to the bottom row, no two ending in the
  same cell, and one for every bottom cell that a chain reaches.
\<close>

definition searchDone :: "grid \<Rightarrow> string \<Rightarrow> int \<Rightarrow> path list \<Rightarrow> bool" where
  "searchDone g symbol c new =
     ((\<forall>p \<in> set new. chain g symbol c p \<and> fst (last p) = 3)
      \<and> distinct (map last new)
      \<and> (\<forall>p. chain g symbol c p \<and> fst (last p) = 3 \<longrightarrow> last p \<in> last ` set new))"

lemma expand_expInv:
  assumes v: "isValidGrid (Some g)" and inv: "expInv g symbol c coord p {} q vs new"
  shows "\<exists>q' vs'. expand g symbol coord p (q, vs) = Inr (q', vs') \<and> bfsInv g symbol c q' vs' new"
proof -
  from inv have "coord \<in> vs" "\<forall>x \<in> vs. okCell g symbol x" "fst coord \<noteq> 3"
    by (simp_all add: expInv_def entriesOk_def)
  then have r: "0 \<le> fst coord" "fst coord < 3" by (auto simp: okCell_def)
  note vv = visit_valid [OF v r]
  define q1 where "q1 = (if okCell g symbol (child coord (- 1)) \<and> child coord (- 1) \<notin> vs
            then q @ [(child coord (- 1), p @ [child coord (- 1)])] else q)"
  define v1 where "v1 = (if okCell g symbol (child coord (- 1)) \<and> child coord (- 1) \<notin> vs
            then insert (child coord (- 1)) vs else vs)"
  define q2 where "q2 = (if okCell g symbol (child coord 0) \<and> child coord 0 \<notin> v1
            then q1 @ [(child coord 0, p @ [child coord 0])] else q1)"
  define v2 where "v2 = (if okCell g symbol (child coord 0) \<and> child coord 0 \<notin> v1
            then insert (child coord 0) v1 else v1)"
  define q3 where "q3 = (if okCell g symbol (child coord 1) \<and> child coord 1 \<notin> v2
            then q2 @ [(child coord 1, p @ [child coord 1])] else q2)"
  define v3 where "v3 = (if okCell g symbol (child coord 1) \<and> child coord 1 \<notin> v2
            then insert (child coord 1) v2 else v2)"
  have s1: "visit g symbol coord p (- 1) (q, vs) = Inr (q1, v1)"
    by (simp add: vv q1_def v1_def)
  have s2: "visit g symbol coord p 0 (q1, v1) = Inr (q2, v2)"
    by (simp add: vv q2_def v2_def)
  have s3: "visit g symbol coord p 1 (q2, v2) = Inr (q3, v3)"
    by (simp add: vv q3_def v3_def)
  have ex: "expand g symbol coord p (q, vs) = Inr (q3, v3)"
    by (simp add: expand_def s1 s2 s3)
  have i1: "expInv g symbol c coord p {- 1} q1 v1 new"
    unfolding q1_def v1_def by (rule expInv_visit [OF inv]) simp
  have i2: "expInv g symbol c coord p {0, - 1} q2 v2 new"
    unfolding q2_def v2_def by (rule expInv_visit [OF i1]) simp
  have i3: "expInv g symbol c coord p {1, 0, - 1} q3 v3 new"
    unfolding q3_def v3_def by (rule expInv_visit [OF i2]) simp
  have "{1, 0, - 1} = {- 1, 0, 1 :: int}" by auto
  with i3 have "expInv g symbol c coord p {- 1, 0, 1} q3 v3 new" by simp
  then have "bfsInv g symbol c q3 v3 new" by (rule expInv_done)
  with ex show ?thesis by blast
qed

lemma chain_last_visited:
  assumes inv: "bfsInv g symbol c [] vs new" and ch: "chain g symbol c p"
  shows "last p \<in> vs"
  using ch
proof (induction p rule: rev_induct)
  case Nil
  then show ?case by (simp add: chain_def)
next
  case (snoc x p)
  show ?case
  proof (cases "p = []")
    case True
    with snoc.prems have "x = (0, c)" by (simp add: chain_def)
    with inv show ?thesis by (simp add: bfsInv_def entriesOk_def)
  next
    case False
    with snoc.prems have cp: "chain g symbol c p" and st: "stepOk (last p) x"
      and okx: "okCell g symbol x"
      by (auto simp: chain_def stepsDown_snoc)
    from snoc.IH [OF cp] have lv: "last p \<in> vs" .
    from st okx have "fst (last p) \<noteq> 3" by (auto simp: stepOk_def okCell_def)
    moreover from inv have "\<forall>p \<in> set new. fst (last p) = 3"
      by (simp add: bfsInv_def entriesOk_def)
    ultimately have "last p \<notin> last ` set new" by auto
    with inv lv have cl: "closedAt g symbol vs (last p) {- 1, 0, 1}"
      by (auto simp: bfsInv_def)
    from st have "x = child (last p) (snd x - snd (last p))" "snd x - snd (last p) \<in> {- 1, 0, 1}"
      by (simp_all add: stepOk_def child_def prod_eq_iff)
    with cl okx have "x \<in> vs" unfolding closedAt_def by metis
    then show ?thesis by simp
  qed
qed

lemma bfsInv_final:
  assumes inv: "bfsInv g symbol c [] vs new"
  shows "searchDone g symbol c new"
proof -
  from inv have a: "\<forall>p \<in> set new. chain g symbol c p \<and> fst (last p) = 3"
    and d: "distinct (map last new)"
    by (simp_all add: bfsInv_def entriesOk_def)
  have "\<forall>p. chain g symbol c p \<and> fst (last p) = 3 \<longrightarrow> last p \<in> last ` set new"
  proof (intro allI impI)
    fix p assume p: "chain g symbol c p \<and> fst (last p) = 3"
    then have "last p \<in> vs" using chain_last_visited [OF inv] by simp
    with inv p show "last p \<in> last ` set new" by (auto simp: bfsInv_def)
  qed
  with a d show ?thesis by (simp add: searchDone_def)
qed

lemma bfs_searchDone:
  "isValidGrid (Some g) \<Longrightarrow> bfsInv g symbol c q vs new \<Longrightarrow> allPaths = acc @ new
   \<Longrightarrow> \<exists>new'. bfs g symbol q vs allPaths = Inr (acc @ new') \<and> searchDone g symbol c new'"
proof (induction g symbol q vs allPaths arbitrary: new rule: bfs.induct)
  case (1 g symbol visited allPaths)
  from bfsInv_final [OF "1.prems"(2)] "1.prems"(3) show ?case by simp
next
  case (2 g symbol coord p queue visited allPaths)
  note v = "2.prems"(1) and inv = "2.prems"(2) and eq = "2.prems"(3)
  show ?case
  proof (cases "fst coord = 3")
    case True
    then have t: "fst coord = REEL_COUNT - 1" by (simp add: REEL_COUNT_def)
    from bfsInv_complete [OF inv True]
    have i: "bfsInv g symbol c queue visited (new @ [p])" .
    from eq have e: "allPaths @ [p] = acc @ new @ [p]" by simp
    from "2.IH"(1) [OF t v i e]
    have "\<exists>new'. bfs g symbol queue visited (allPaths @ [p]) = Inr (acc @ new')
                 \<and> searchDone g symbol c new'" .
    with t show ?thesis by simp
  next
    case False
    from bfsInv_pop [OF inv False]
    have "expInv g symbol c coord p {} queue visited new" .
    from expand_expInv [OF v this] obtain q' vs' where
      ex: "expand g symbol coord p (queue, visited) = Inr (q', vs')"
      and inv': "bfsInv g symbol c q' vs' new" by blast
    from False have nf: "fst coord \<noteq> REEL_COUNT - 1" by (simp add: REEL_COUNT_def)
    from "2.IH"(2) [OF nf ex refl v inv' eq]
    have "\<exists>new'. bfs g symbol q' vs' allPaths = Inr (acc @ new') \<and> searchDone g symbol c new'" .
    with nf ex show ?thesis by simp
  qed
qed

section \<open>The adjacency search on a valid grid\<close>

text \<open>
  The paths one search appends to \<open>allPaths\<close>.
\<close>

definition searchResult :: "grid \<Rightarrow> string \<Rightarrow> int \<Rightarrow> path list" where
  "searchResult g symbol c = (case searchFrom g symbol c [] of Inl e \<Rightarrow> [] | Inr ps \<Rightarrow> ps)"

text \<open>
  The result of \<open>findAdjacencyWins\<close> on a valid grid: the searches in the order of the
  loops, symbol by symbol and column by column.
\<close>

definition rawAdjacency :: "grid \<Rightarrow> path list" where
  "rawAdjacency g =
     concat (map (\<lambda>symbol.
        concat (map (\<lambda>c. if cellOf g 0 c = Some symbol then searchResult g symbol c else [])
                    [0 .. 5]))
       (uniqueSymbols g))"

lemma bfs_acc:
  "bfs g symbol q vs (acc @ ps) = map_sum id ((@) acc) (bfs g symbol q vs ps)"
proof (induction g symbol q vs ps rule: bfs.induct)
  case (1 g symbol visited allPaths)
  show ?case by simp
next
  case (2 g symbol coord p queue visited allPaths)
  show ?case
  proof (cases "fst coord = REEL_COUNT - 1")
    case True
    with "2.IH"(1) show ?thesis by simp
  next
    case False
    show ?thesis
    proof (cases "expand g symbol coord p (queue, visited)")
      case (Inl e)
      with False show ?thesis by simp
    next
      case (Inr qv)
      obtain q' vs' where qv: "qv = (q', vs')" by (cases qv)
      from "2.IH"(2) [OF False Inr qv [symmetric]] False Inr qv show ?thesis by simp
    qed
  qed
qed

lemma bfsInv_start:
  assumes "okCell g symbol (0, c)"
  shows "bfsInv g symbol c [((0, c), [(0, c)])] {(0, c)} []"
  using assms by (simp add: bfsInv_def entriesOk_def chain_def)

lemma searchFrom_valid:
  assumes v: "isValidGrid (Some g)" and ok: "okCell g symbol (0, c)"
  shows "searchFrom g symbol c acc = Inr (acc @ searchResult g symbol c)"
    and "searchDone g symbol c (searchResult g symbol c)"
proof -
  from bfs_searchDone [OF v bfsInv_start [OF ok], of "[]" "[]"]
  obtain new0 where n0: "bfs g symbol [((0, c), [(0, c)])] {(0, c)} [] = Inr new0"
    and d0: "searchDone g symbol c new0" by auto
  then have r: "searchResult g symbol c = new0" by (simp add: searchResult_def searchFrom_def)
  from bfs_acc [of g symbol "[((0, c), [(0, c)])]" "{(0, c)}" acc "[]"] n0 r
  show "searchFrom g symbol c acc = Inr (acc @ searchResult g symbol c)"
    by (simp add: searchFrom_def)
  from d0 r show "searchDone g symbol c (searchResult g symbol c)" by simp
qed

lemma adjacency_body:
  assumes v: "isValidGrid (Some g)" and c: "c \<in> set [0 .. 5]"
  shows "(case cellAt g 0 c of
            Inl e \<Rightarrow> Inl e
          | Inr cv \<Rightarrow> if cv = Some symbol then searchFrom g symbol c allPaths else Inr allPaths)
         = Inr (allPaths @ (if cellOf g 0 c = Some symbol then searchResult g symbol c else []))"
proof -
  from c have c': "0 \<le> c" "c < 6" by auto
  have rd: "cellAt g 0 c = Inr (cellOf g 0 c)"
    using cellAt_valid [OF v _ _ c', of 0] by simp
  show ?thesis
  proof (cases "cellOf g 0 c = Some symbol")
    case True
    with c' have "okCell g symbol (0, c)" by (simp add: okCell_def)
    from searchFrom_valid(1) [OF v this] True rd show ?thesis by simp
  next
    case False
    with rd show ?thesis by simp
  qed
qed

lemma findAdjacencyWins_valid:
  assumes v: "isValidGrid (Some g)"
  shows "findAdjacencyWins g = Inr (rawAdjacency g)"
proof -
  have inner: "\<And>symbol allPaths.
      forEach [0 .. SYMBOLS_PER_REEL - 1]
        (\<lambda>c allPaths.
             case cellAt g 0 c of
               Inl e \<Rightarrow> Inl e
             | Inr v \<Rightarrow> if v = Some symbol then searchFrom g symbol c allPaths
                        else Inr allPaths) allPaths
      = Inr (allPaths @ concat (map (\<lambda>c. if cellOf g 0 c = Some symbol
                                           then searchResult g symbol c else []) [0 .. 5]))"
    unfolding cols_range
    by (rule forEach_appends) (rule adjacency_body [OF v])
  have "findAdjacencyWins g = Inr ([] @ rawAdjacency g)"
    unfolding findAdjacencyWins_def rawAdjacency_def
    by (rule forEach_appends) (rule inner)
  then show ?thesis by simp
qed

lemma insertionOrder_set: "set (insertionOrder seen xs) = set seen \<union> set xs"
  by (induction xs arbitrary: seen) auto

lemma insertionOrder_distinct: "distinct seen \<Longrightarrow> distinct (insertionOrder seen xs)"
  by (induction xs arbitrary: seen) auto

lemma uniqueSymbols_distinct: "distinct (uniqueSymbols g)"
  by (simp add: uniqueSymbols_def insertionOrder_distinct)

lemma uniqueSymbols_truthy: "symbol \<in> set (uniqueSymbols g) \<Longrightarrow> symbol \<noteq> []"
  by (auto simp: uniqueSymbols_def insertionOrder_set truthy_def split: option.splits)

lemma uniqueSymbols_member:
  assumes v: "isValidGrid (Some g)" and ok: "okCell g symbol x" and t: "symbol \<noteq> []"
  shows "symbol \<in> set (uniqueSymbols g)"
proof -
  from ok have r: "0 \<le> fst x" "fst x < 4" and c: "0 \<le> snd x" "snd x < 6"
    and cv: "cellOf g (fst x) (snd x) = Some symbol"
    by (simp_all add: okCell_def)
  from valid_row [OF v r] obtain cs where cs: "g ! nat (fst x) = Some cs" "length cs = 6" by blast
  define e where "e = cs ! nat (snd x)"
  from valid_length [OF v] r have row: "Some cs \<in> set g"
    using nth_mem [of "nat (fst x)" g] cs(1) by simp
  from cs c have "e \<in> set cs"
    using nth_mem [of "nat (snd x)" cs] by (simp add: e_def)
  moreover from cs cv have val: "valueOf e = Some symbol" by (simp add: cellOf_def e_def)
  then have "e \<noteq> Hole" by (auto simp: valueOf_def)
  ultimately have "e \<in> set (filter (\<lambda>e. e \<noteq> Hole) cs)" by simp
  then have "valueOf e \<in> valueOf ` set (filter (\<lambda>e. e \<noteq> Hole) cs)" by (rule imageI)
  with val have "Some symbol \<in> set (map valueOf (filter (\<lambda>e. e \<noteq> Hole) cs))" by simp
  with row have "Some symbol \<in> set (concat (map (\<lambda>row. case row of
                              None \<Rightarrow> [None]
                            | Some cs \<Rightarrow> map valueOf (filter (\<lambda>e. e \<noteq> Hole) cs)) g))"
    by (auto intro!: bexI [of _ "Some cs"])
  with t have "Some symbol \<in> set (filter truthy
          (concat (map (\<lambda>row. case row of
                              None \<Rightarrow> [None]
                            | Some cs \<Rightarrow> map valueOf (filter (\<lambda>e. e \<noteq> Hole) cs)) g)))"
    by (simp add: truthy_def)
  then have "the (Some symbol) \<in> the ` set (filter truthy
          (concat (map (\<lambda>row. case row of
                              None \<Rightarrow> [None]
                            | Some cs \<Rightarrow> map valueOf (filter (\<lambda>e. e \<noteq> Hole) cs)) g)))"
    by (rule imageI)
  then show ?thesis by (simp add: uniqueSymbols_def insertionOrder_set)
qed

lemma rawAdjacency_member:
  "p \<in> set (rawAdjacency g)
   \<longleftrightarrow> (\<exists>symbol \<in> set (uniqueSymbols g). \<exists>c \<in> set [0 .. 5].
          cellOf g 0 c = Some symbol \<and> p \<in> set (searchResult g symbol c))"
  by (auto simp: rawAdjacency_def split: if_splits)

section \<open>Example grids\<close>

text \<open>
  A grid without missing rows or cells, from its symbol names.
\<close>

definition gridOf :: "string list list \<Rightarrow> grid" where
  "gridOf rows = map (\<lambda>cs. Some (map Symbol cs)) rows"

text \<open>
  The grid of the repository's adjacency test: a zigzag of \<open>Z\<close> from \<open>(0, 1)\<close>.
\<close>

definition zigzagGrid :: grid where
  "zigzagGrid = gridOf
     [[''A'', ''Z'', ''A'', ''A'', ''E'', ''G''],
      [''B'', ''A'', ''Z'', ''B'', ''F'', ''F''],
      [''C'', ''Z'', ''A'', ''D'', ''C'', ''E''],
      [''A'', ''A'', ''Z'', ''E'', ''B'', ''D'']]"

text \<open>
  Two connecting paths of \<open>A\<close> lead from \<open>(0, 0)\<close> to \<open>(3, 0)\<close>: through \<open>(1, 0)\<close> and
  through \<open>(1, 1)\<close>.
\<close>

definition forkGrid :: grid where
  "forkGrid = gridOf
     [[''A'', ''B'', ''C'', ''D'', ''E'', ''F''],
      [''A'', ''A'', ''C'', ''D'', ''E'', ''F''],
      [''A'', ''G'', ''H'', ''I'', ''J'', ''K''],
      [''A'', ''L'', ''M'', ''N'', ''O'', ''P'']]"

section \<open>Connecting paths\<close>

text \<open>
  A connecting path as the specification describes it: from row 0 to row 3, one row down
  per step with a column change of -1, 0 or +1, the columns in \<open>[0, 5]\<close>, and all cells
  holding one non-empty symbol.
\<close>

definition connectingPath :: "grid \<Rightarrow> path \<Rightarrow> bool" where
  "connectingPath g p =
     (p \<noteq> [] \<and> fst (hd p) = 0 \<and> fst (last p) = 3 \<and> stepsDown p
      \<and> (\<forall>x \<in> set p. 0 \<le> snd x \<and> snd x \<le> 5) \<and> sharesSymbol g p)"

lemma stepsDown_rows:
  "stepsDown p \<Longrightarrow> x \<in> set p \<Longrightarrow> fst (hd p) \<le> fst x \<and> fst x \<le> fst (last p)"
proof (induction p arbitrary: x rule: stepsDown.induct)
  case 1
  then show ?case by simp
next
  case (2 y)
  then show ?case by simp
next
  case (3 a b zs)
  from "3.prems"(1) have ab: "fst b = fst a + 1" and st: "stepsDown (b # zs)"
    by (simp_all add: stepOk_def)
  show ?case
  proof (cases "x = a")
    case True
    have "b \<in> set (b # zs)" by simp
    from "3.IH" [OF st this] ab True show ?thesis by simp
  next
    case False
    with "3.prems"(2) have "x \<in> set (b # zs)" by simp
    from "3.IH" [OF st this] ab show ?thesis by simp
  qed
qed

lemma stepsDown_strict:
  "stepsDown p \<Longrightarrow> sorted_wrt (\<lambda>a b. fst a < fst b) p"
proof (induction p rule: stepsDown.induct)
  case 1
  show ?case by simp
next
  case (2 y)
  show ?case by simp
next
  case (3 a b zs)
  from "3.prems" have ab: "fst b = fst a + 1" and st: "stepsDown (b # zs)"
    by (simp_all add: stepOk_def)
  from "3.IH" [OF st] have s: "sorted_wrt (\<lambda>a b. fst a < fst b) (b # zs)" .
  have "\<forall>y \<in> set (b # zs). fst a < fst y"
  proof
    fix y assume "y \<in> set (b # zs)"
    from stepsDown_rows [OF st this] ab show "fst a < fst y" by simp
  qed
  with s show ?case by simp
qed

lemma strict_rows_sorted:
  assumes "sorted_wrt (\<lambda>a b. fst a < fst b) (p :: path)"
  shows "sorted p" and "distinct p"
proof -
  from assms have "sorted_wrt (\<lambda>a b. a < b) p"
    by (rule sorted_wrt_mono_rel [rotated]) (auto simp: less_prod_def)
  then show "sorted p" "distinct p"
    by (simp_all add: strict_sorted_iff)
qed

lemma stepsDown_sorted: "stepsDown p \<Longrightarrow> sorted p"
  and stepsDown_distinct: "stepsDown p \<Longrightarrow> distinct p"
  using strict_rows_sorted [OF stepsDown_strict] by blast+

lemma chain_hd:
  assumes "chain g symbol c p"
  shows "hd p = (0, c) \<and> okCell g symbol (0, c)"
proof -
  from assms have p: "p \<noteq> []" "hd p = (0, c)" and ok: "\<forall>x \<in> set p. okCell g symbol x"
    by (simp_all add: chain_def)
  from p(1) have "hd p \<in> set p" by simp
  with ok p(2) show ?thesis by auto
qed

lemma searchResult_facts:
  assumes v: "isValidGrid (Some g)" and s: "symbol \<in> set (uniqueSymbols g)"
    and c: "c \<in> set [0 .. 5]" and cv: "cellOf g 0 c = Some symbol"
  shows "searchDone g symbol c (searchResult g symbol c)"
proof -
  from c cv have "okCell g symbol (0, c)" by (simp add: okCell_def)
  from searchFrom_valid(2) [OF v this] show ?thesis .
qed

lemma rawAdjacency_sound:
  assumes v: "isValidGrid (Some g)" and p: "p \<in> set (rawAdjacency g)"
  shows "\<exists>symbol c. symbol \<noteq> [] \<and> chain g symbol c p \<and> fst (last p) = 3"
proof -
  from p obtain symbol c where s: "symbol \<in> set (uniqueSymbols g)" and c: "c \<in> set [0 .. 5]"
    and cv: "cellOf g 0 c = Some symbol" and m: "p \<in> set (searchResult g symbol c)"
    unfolding rawAdjacency_member by blast
  from searchResult_facts [OF v s c cv] m have "chain g symbol c p \<and> fst (last p) = 3"
    by (simp add: searchDone_def)
  with uniqueSymbols_truthy [OF s] show ?thesis by blast
qed

section \<open>The collections of a valid grid\<close>

text \<open>
  A full row and a full column of \<open>A\<close>, which also give one bent connecting path.
\<close>

definition crossGrid :: grid where
  "crossGrid = gridOf
     [[''A'', ''A'', ''A'', ''A'', ''A'', ''A''],
      [''A'', ''B'', ''C'', ''D'', ''E'', ''F''],
      [''A'', ''G'', ''H'', ''I'', ''J'', ''K''],
      [''A'', ''L'', ''M'', ''N'', ''O'', ''P'']]"

text \<open>
  Row 0 is \<open>A\<close> in five slots and has a hole at column 1, as
  \<open>['A', , 'A', 'A', 'A', 'A']\<close>; no other cell matches.
\<close>

definition sparseRowGrid :: grid where
  "sparseRowGrid =
     [Some [Symbol ''A'', Hole, Symbol ''A'', Symbol ''A'', Symbol ''A'', Symbol ''A''],
      Some (map Symbol [''B'', ''C'', ''D'', ''E'', ''F'', ''G'']),
      Some (map Symbol [''H'', ''I'', ''J'', ''K'', ''L'', ''M'']),
      Some (map Symbol [''N'', ''O'', ''P'', ''Q'', ''R'', ''S''])]"

text \<open>
  The grid of the repository's diagonal test.
\<close>

definition diagonalGrid :: grid where
  "diagonalGrid = gridOf
     [[''Q'', ''W'', ''E'', ''R'', ''A'', ''B''],
      [''A'', ''Q'', ''S'', ''D'', ''E'', ''F''],
      [''Z'', ''X'', ''Q'', ''V'', ''C'', ''D''],
      [''Z'', ''X'', ''F'', ''Q'', ''C'', ''D'']]"

lemma computeWins_valid:
  assumes v: "isValidGrid (Some g)"
  shows "computeWins (Some g) =
     Inr (\<lparr>straight = dedupePaths
              (map horizontalPath (filter (rowEvery g) [0 .. 3])
               @ map verticalPath (filter (\<lambda>c. sharesSymbol g (verticalPath c)) [0 .. 5])),
           diagonal = dedupePaths
              (filter (sharesSymbol g)
                 (map (diagonalPath 1) [0, 1, 2] @ map (diagonalPath (- 1)) [5, 4, 3])),
           adjacency = dedupePaths
              (filter (\<lambda>p. \<not> isStraightOrDiagonalPath p) (rawAdjacency g))\<rparr>, [])"
  using v
  by (simp only: computeWins_def findHorizontalWins_valid [OF v] findVerticalWins_valid [OF v]
        findDiagonalWins_valid [OF v] findAdjacencyWins_valid [OF v] option.sel sum.case
        Let_def not_True_eq_False if_False)

lemma horizontalPath_sorted: "sorted (horizontalPath r)"
  by (simp add: horizontalPath_def less_eq_prod_def)

lemma verticalPath_sorted: "sorted (verticalPath c)"
  by (simp add: verticalPath_def less_eq_prod_def)

lemma diagonalPath_sorted: "sorted (diagonalPath step c)"
  by (simp add: diagonalPath_def less_eq_prod_def)

lemma straight_raw_distinct:
  "distinct (map horizontalPath (filter P [0 .. 3]) @ map verticalPath (filter Q [0 .. 5]))"
proof -
  have "inj horizontalPath" by (auto simp: inj_def horizontalPath_def)
  then have h: "distinct (map horizontalPath (filter P [0 .. 3]))"
    by (simp add: distinct_map inj_on_def inj_def)
  have "inj verticalPath" by (auto simp: inj_def verticalPath_def)
  then have w: "distinct (map verticalPath (filter Q [0 .. 5]))"
    by (simp add: distinct_map inj_on_def inj_def)
  have "\<And>r c. horizontalPath r \<noteq> verticalPath c"
    by (simp add: horizontalPath_def verticalPath_def)
  then have "set (map horizontalPath (filter P [0 .. 3])) \<inter> set (map verticalPath (filter Q [0 .. 5])) = {}"
    by auto
  with h w show ?thesis by simp
qed

lemma diagonal_raw_distinct:
  "distinct (filter P (map (diagonalPath 1) [0, 1, 2] @ map (diagonalPath (- 1)) [5, 4, 3]))"
  by (rule distinct_filter) (simp add: diagonalPath_def)

text \<open>
  Claim C3 fails on the code for a sparse row. \<open>sparseRowGrid\<close> passes the validation
  (its row 0 has length 6) and its cell \<open>(0, 1)\<close> is empty: reading it gives
  \<open>undefined\<close>. The claim says such a row yields no path; \<open>findHorizontalWins\<close> tests
  the row with \<open>every\<close>, which skips the hole, and row 0 is reported as a straight win.
  The vertical and the diagonal scan read by index and take the hole for a mismatch.
\<close>

theorem horizontal_scan_skips_hole:
  "isValidGrid (Some sparseRowGrid)
   \<and> cellAt sparseRowGrid 0 1 = Inr None
   \<and> computeWins (Some sparseRowGrid)
       = Inr (\<lparr>straight = [[(0, 0), (0, 1), (0, 2), (0, 3), (0, 4), (0, 5)]],
               diagonal = [], adjacency = []\<rparr>, [])"
  by code_simp

text \<open>
  When no row has a hole, the straight collection is the rows, then the columns, whose
  cells hold one non-empty symbol.
\<close>

lemma straight_without_holes:
  assumes v: "isValidGrid (Some g)"
    and dense: "\<forall>r \<in> set [0 .. 3]. \<forall>c \<in> set [0 .. 5]. \<not> holeAt g r c"
  shows "\<exists>w. computeWins (Some g) = Inr (w, [])
           \<and> straight w =
               map horizontalPath (filter (\<lambda>r. sharesSymbol g (horizontalPath r)) [0 .. 3])
               @ map verticalPath (filter (\<lambda>c. sharesSymbol g (verticalPath c)) [0 .. 5])"
proof -
  have "filter (rowEvery g) [0 .. 3] = filter (\<lambda>r. sharesSymbol g (horizontalPath r)) [0 .. 3]"
  proof (rule filter_cong [OF refl])
    fix r :: int assume "r \<in> set [0 .. 3]"
    with dense have "\<forall>c \<in> set [0 .. 5]. \<not> holeAt g r c" by blast
    then show "rowEvery g r = sharesSymbol g (horizontalPath r)" by (rule rowEvery_dense)
  qed
  moreover have "dedupePaths
          (map horizontalPath (filter (rowEvery g) [0 .. 3])
           @ map verticalPath (filter (\<lambda>c. sharesSymbol g (verticalPath c)) [0 .. 5]))
        = map horizontalPath (filter (rowEvery g) [0 .. 3])
           @ map verticalPath (filter (\<lambda>c. sharesSymbol g (verticalPath c)) [0 .. 5])"
    by (rule dedupePaths_id [OF straight_raw_distinct])
       (auto simp: horizontalPath_sorted verticalPath_sorted)
  ultimately show ?thesis using computeWins_valid [OF v] by simp
qed

text \<open>
  Claim C4. On a valid grid the diagonal collection is exactly the full-height runs that
  hold one non-empty symbol: those of column step +1 from the columns 0, 1, 2, then those
  of column step -1 from the columns 5, 4, 3. Every reported diagonal has four cells: no
  shorter run is reported.
\<close>

theorem diagonal_exact:
  assumes "isValidGrid (Some g)"
  shows "\<exists>w. computeWins (Some g) = Inr (w, [])
           \<and> diagonal w =
               filter (sharesSymbol g)
                 (map (diagonalPath 1) [0, 1, 2] @ map (diagonalPath (- 1)) [5, 4, 3])
           \<and> (\<forall>p \<in> set (diagonal w). length p = 4)"
proof -
  have "dedupePaths (filter (sharesSymbol g)
                 (map (diagonalPath 1) [0, 1, 2] @ map (diagonalPath (- 1)) [5, 4, 3]))
        = filter (sharesSymbol g)
                 (map (diagonalPath 1) [0, 1, 2] @ map (diagonalPath (- 1)) [5, 4, 3])"
    by (rule dedupePaths_id [OF diagonal_raw_distinct]) (auto simp: diagonalPath_sorted)
  moreover have "\<forall>p \<in> set (filter (sharesSymbol g)
                 (map (diagonalPath 1) [0, 1, 2] @ map (diagonalPath (- 1)) [5, 4, 3])). length p = 4"
    by (auto simp: diagonalPath_def)
  ultimately show ?thesis using computeWins_valid [OF assms] by simp
qed

text \<open>
  On \<open>diagonalGrid\<close> the diagonal collection is the run of \<open>Q\<close> from \<open>(0, 0)\<close>.
\<close>

theorem diagonal_exact_witness:
  "isValidGrid (Some diagonalGrid)
   \<and> (\<exists>w. computeWins (Some diagonalGrid) = Inr (w, [])
          \<and> diagonal w = [[(0, 0), (1, 1), (2, 2), (3, 3)]])"
proof -
  have v: "isValidGrid (Some diagonalGrid)" by code_simp
  have e: "filter (sharesSymbol diagonalGrid)
             (map (diagonalPath 1) [0, 1, 2] @ map (diagonalPath (- 1)) [5, 4, 3])
           = [[(0, 0), (1, 1), (2, 2), (3, 3)]]"
    by code_simp
  from diagonal_exact [OF v] e v show ?thesis by auto
qed

lemma computeWins_returns: "\<exists>w lg. computeWins go = Inr (w, lg)"
proof (cases "isValidGrid go")
  case False
  then show ?thesis by (simp add: computeWins_def)
next
  case True
  then obtain g where "go = Some g" by (auto simp: isValidGrid_def split: option.splits)
  with True computeWins_valid [of g] show ?thesis by simp
qed

text \<open>
  Claim C10. For every input (a missing grid, missing rows, rows of any length, empty
  cells) \<open>computeWins\<close> returns a result: the loop of the search terminates (the
  termination proof of \<open>bfs\<close>), and no read leaves the grid, since a read outside it would
  make the result \<open>Inl\<close>.
\<close>

theorem computeWins_total:
  "\<exists>w lg. computeWins go = Inr (w, lg)"
  by (rule computeWins_returns)

text \<open>
  Claim C7. For every grid, valid or not, \<open>checkWin\<close> returns the result of \<open>computeWins\<close>
  together with \<open>winningPaths\<close>, the straight, then the diagonal, then the adjacency paths,
  nothing filtered: its length is the sum of the three lengths.
\<close>

theorem checkWin_concat:
  "\<exists>res w lg. computeWins go = Inr (w, lg) \<and> checkWin go = Inr (res, lg) \<and> wins res = w
     \<and> winningPaths res = straight w @ diagonal w @ adjacency w
     \<and> length (winningPaths res) = length (straight w) + length (diagonal w) + length (adjacency w)"
proof -
  from computeWins_returns [of go] obtain w lg where c: "computeWins go = Inr (w, lg)" by blast
  then have "checkWin go = Inr (\<lparr>winningPaths = straight w @ diagonal w @ adjacency w, wins = w\<rparr>, lg)"
    by (simp add: checkWin_def)
  with c show ?thesis by simp
qed

text \<open>
  A path of at most one point, or one whose column change between consecutive points is
  always that of its first pair: the shape the specification calls straight or constant
  diagonal.
\<close>

definition constantColumnDelta :: "path \<Rightarrow> bool" where
  "constantColumnDelta p =
     (length p \<le> 1
      \<or> (\<forall>i \<in> set [0 ..< length p - 1]. snd (p ! Suc i) - snd (p ! i) = snd (p ! 1) - snd (p ! 0)))"

lemma valid_top_cell:
  assumes v: "isValidGrid (Some g)" and rd: "cellAt g 0 c = Inr (Some symbol)"
  shows "okCell g symbol (0, c)"
proof -
  from rowAt_valid [OF v, of 0] have r: "rowAt g 0 = Inr (the (g ! nat 0))"
    and l: "length (the (g ! nat 0)) = 6" by simp_all
  from rd r l have c: "0 \<le> c" "c < 6"
    by (auto simp: cellAt_def split: if_splits)
  from cellAt_valid [OF v _ _ c, of 0] rd have "cellOf g 0 c = Some symbol" by simp
  with c show ?thesis by (simp add: okCell_def)
qed

lemma bottom_cells_card:
  assumes d: "distinct (map last ps)"
    and b: "\<forall>p \<in> set ps. fst (last p) = (3::int) \<and> (0::int) \<le> snd (last p) \<and> snd (last p) \<le> 5"
  shows "length ps \<le> 6"
proof -
  have "set (map last ps) \<subseteq> {3} \<times> {0 .. 5}"
    using b by (auto simp: prod_eq_iff)
  then have "card (set (map last ps)) \<le> card ({3 :: int} \<times> {0 .. 5 :: int})"
    by (intro card_mono) simp_all
  also have "\<dots> = 6" by simp
  finally have "card (set (map last ps)) \<le> 6" .
  with distinct_card [OF d] show ?thesis by simp
qed

text \<open>
  Claim C8. On a valid grid, the search started at a top-row cell \<open>(0, c)\<close> that holds
  \<open>symbol\<close> appends at most 6 paths to \<open>allPaths\<close>: they end in the bottom row, in
  pairwise different cells. So one search never yields \<open>3 ^ (R - 1) = 27\<close> paths.
\<close>

theorem search_at_most_six:
  assumes v: "isValidGrid (Some g)" and rd: "cellAt g 0 c = Inr (Some symbol)"
  shows "\<exists>new. searchFrom g symbol c allPaths = Inr (allPaths @ new)
           \<and> length new \<le> 6
           \<and> distinct (map last new)
           \<and> (\<forall>p \<in> set new. fst (last p) = 3 \<and> 0 \<le> snd (last p) \<and> snd (last p) \<le> 5)
           \<and> length new < 3 ^ nat (REEL_COUNT - 1)"
proof -
  from valid_top_cell [OF v rd] have ok: "okCell g symbol (0, c)" .
  define new where "new = searchResult g symbol c"
  from searchFrom_valid [OF v ok] have r: "searchFrom g symbol c allPaths = Inr (allPaths @ new)"
    and d: "searchDone g symbol c new" by (simp_all add: new_def)
  from d have dl: "distinct (map last new)" by (simp add: searchDone_def)
  have b: "\<forall>p \<in> set new. fst (last p) = 3 \<and> 0 \<le> snd (last p) \<and> snd (last p) \<le> 5"
  proof
    fix p assume p: "p \<in> set new"
    with d have ch: "chain g symbol c p" and l: "fst (last p) = 3" by (simp_all add: searchDone_def)
    from ch have "p \<noteq> []" "\<forall>x \<in> set p. okCell g symbol x" by (simp_all add: chain_def)
    then have "okCell g symbol (last p)" by simp
    with l show "fst (last p) = 3 \<and> 0 \<le> snd (last p) \<and> snd (last p) \<le> 5"
      by (simp add: okCell_def)
  qed
  from bottom_cells_card [OF dl b] have six: "length new \<le> 6" .
  then have "length new < 3 ^ nat (REEL_COUNT - 1)" by (simp add: REEL_COUNT_def)
  with r six dl b show ?thesis by blast
qed

text \<open>
  The search for \<open>Z\<close> from \<open>(0, 1)\<close> of \<open>zigzagGrid\<close> finds one path.
\<close>

theorem search_at_most_six_witness:
  "isValidGrid (Some zigzagGrid) \<and> cellAt zigzagGrid 0 1 = Inr (Some ''Z'')
   \<and> searchFrom zigzagGrid ''Z'' 1 [] = Inr [[(0, 1), (1, 2), (2, 1), (3, 2)]]
   \<and> (\<exists>new. searchFrom zigzagGrid ''Z'' 1 [] = Inr ([] @ new) \<and> length new \<le> 6)"
proof -
  have v: "isValidGrid (Some zigzagGrid)" by code_simp
  have rd: "cellAt zigzagGrid 0 1 = Inr (Some ''Z'')" by code_simp
  have e: "searchFrom zigzagGrid ''Z'' 1 [] = Inr [[(0, 1), (1, 2), (2, 1), (3, 2)]]" by code_simp
  from search_at_most_six [OF v rd, of "[]"] v rd e show ?thesis by blast
qed

text \<open>
  Claim C1, the input it fails on. In \<open>forkGrid\<close> the path through \<open>(1, 1)\<close> is a
  connecting path, and it is not among the raw results of the search.
\<close>

theorem adjacency_not_exhaustive:
  "isValidGrid (Some forkGrid)
   \<and> connectingPath forkGrid [(0, 0), (1, 1), (2, 0), (3, 0)]
   \<and> findAdjacencyWins forkGrid = Inr [[(0, 0), (1, 0), (2, 0), (3, 0)]]
   \<and> ([(0, 0), (1, 1), (2, 0), (3, 0)] :: path) \<notin> set [[(0, 0), (1, 0), (2, 0), (3, 0)]]"
  by code_simp

text \<open>
  Claim C1 fails on the code. The search of \<open>forkGrid\<close> collects only column 0: when
  \<open>(1, 1)\<close> is expanded, \<open>(2, 0)\<close> is already in the visited set, so the connecting path
  \<open>(0,0), (1,1), (2,0), (3,0)\<close> is never completed, and the adjacency collection is empty
  although that path is not straight. The documentation of \<open>findAdjacencyWins\<close> says that
  it finds all connecting paths.
\<close>

theorem adjacency_drops_path:
  "isValidGrid (Some forkGrid)
   \<and> findAdjacencyWins forkGrid = Inr [[(0, 0), (1, 0), (2, 0), (3, 0)]]
   \<and> computeWins (Some forkGrid)
       = Inr (\<lparr>straight = [[(0, 0), (1, 0), (2, 0), (3, 0)]], diagonal = [],
               adjacency = []\<rparr>, [])"
  by code_simp

lemma stepsDown_nth:
  "stepsDown p \<Longrightarrow> Suc i < length p \<Longrightarrow> stepOk (p ! i) (p ! Suc i)"
proof (induction p arbitrary: i rule: stepsDown.induct)
  case 1
  then show ?case by simp
next
  case (2 y)
  then show ?case by simp
next
  case (3 a b zs)
  show ?case
  proof (cases i)
    case 0
    with "3.prems"(1) show ?thesis by simp
  next
    case (Suc j)
    with "3.prems" have "stepsDown (b # zs)" "Suc j < length (b # zs)" by simp_all
    from "3.IH" [OF this] Suc show ?thesis by simp
  qed
qed

lemma isStraight_constant:
  assumes st: "stepsDown p"
  shows "isStraightOrDiagonalPath p = constantColumnDelta p"
proof (cases "length p \<le> 1")
  case True
  then show ?thesis by (simp add: isStraightOrDiagonalPath_def constantColumnDelta_def)
next
  case False
  define d where "d = snd (p ! 1) - snd (p ! 0)"
  have a: "isStraightOrDiagonalPath p
           = (\<forall>i \<in> set [2 ..< length p]. fst (p ! i) - fst (p ! (i - 1)) = 1
                                          \<and> snd (p ! i) - snd (p ! (i - 1)) = d)"
    using False by (simp add: isStraightOrDiagonalPath_def Let_def list_all_iff d_def)
  have b: "constantColumnDelta p
           = (\<forall>j \<in> set [0 ..< length p - 1]. snd (p ! Suc j) - snd (p ! j) = d)"
    using False by (simp add: constantColumnDelta_def d_def)
  show ?thesis
  proof
    assume l: "isStraightOrDiagonalPath p"
    have "\<forall>j \<in> set [0 ..< length p - 1]. snd (p ! Suc j) - snd (p ! j) = d"
    proof
      fix j assume j: "j \<in> set [0 ..< length p - 1]"
      show "snd (p ! Suc j) - snd (p ! j) = d"
      proof (cases j)
        case 0
        then show ?thesis by (simp add: d_def)
      next
        case (Suc k)
        with j have "Suc j \<in> set [2 ..< length p]" by auto
        with l a have "snd (p ! Suc j) - snd (p ! (Suc j - 1)) = d" by blast
        then show ?thesis by simp
      qed
    qed
    with b show "constantColumnDelta p" by simp
  next
    assume r: "constantColumnDelta p"
    have "\<forall>i \<in> set [2 ..< length p]. fst (p ! i) - fst (p ! (i - 1)) = 1
                                          \<and> snd (p ! i) - snd (p ! (i - 1)) = d"
    proof
      fix i assume i: "i \<in> set [2 ..< length p]"
      then have i2: "2 \<le> i" "i < length p" by simp_all
      define j where "j = i - 1"
      with i2 have j: "i = Suc j" "Suc j < length p" "j \<in> set [0 ..< length p - 1]"
        by simp_all
      from stepsDown_nth [OF st j(2)] have "fst (p ! Suc j) - fst (p ! j) = 1"
        by (simp add: stepOk_def)
      moreover from r b j(3) have "snd (p ! Suc j) - snd (p ! j) = d" by blast
      ultimately show "fst (p ! i) - fst (p ! (i - 1)) = 1 \<and> snd (p ! i) - snd (p ! (i - 1)) = d"
        using j(1) by simp
    qed
    with a show "isStraightOrDiagonalPath p" by simp
  qed
qed

lemma rawAdjacency_stepsDown:
  assumes "isValidGrid (Some g)" "p \<in> set (rawAdjacency g)"
  shows "stepsDown p"
  using rawAdjacency_sound [OF assms] by (auto simp: chain_def)

lemma adjacency_final_set:
  assumes v: "isValidGrid (Some g)"
  shows "set (dedupePaths (filter (\<lambda>p. \<not> isStraightOrDiagonalPath p) (rawAdjacency g)))
         = {p \<in> set (rawAdjacency g). \<not> constantColumnDelta p}"
proof -
  have "\<forall>p \<in> set (filter (\<lambda>p. \<not> isStraightOrDiagonalPath p) (rawAdjacency g)). sorted p"
    using rawAdjacency_stepsDown [OF v] stepsDown_sorted by auto
  from dedupePaths_set [OF this]
  have "set (dedupePaths (filter (\<lambda>p. \<not> isStraightOrDiagonalPath p) (rawAdjacency g)))
        = {p \<in> set (rawAdjacency g). \<not> isStraightOrDiagonalPath p}" by simp
  also have "\<dots> = {p \<in> set (rawAdjacency g). \<not> constantColumnDelta p}"
    using rawAdjacency_stepsDown [OF v] isStraight_constant by blast
  finally show ?thesis .
qed

text \<open>
  Claim C5. On a valid grid a raw adjacency result is missing from the adjacency collection
  exactly when it has at most one point or a constant column change; so no path of the
  adjacency collection has a constant column change.
\<close>

theorem adjacency_filter_exact:
  assumes v: "isValidGrid (Some g)"
  shows "\<exists>raw w. findAdjacencyWins g = Inr raw \<and> computeWins (Some g) = Inr (w, [])
           \<and> (\<forall>p \<in> set raw. (p \<notin> set (adjacency w)) = constantColumnDelta p)
           \<and> (\<forall>p \<in> set (adjacency w). \<not> constantColumnDelta p)"
  using findAdjacencyWins_valid [OF v] computeWins_valid [OF v] adjacency_final_set [OF v]
  by simp

text \<open>
  In \<open>crossGrid\<close> the search finds column 0, which is dropped, and a bent path, which is
  kept.
\<close>

theorem adjacency_filter_exact_witness:
  "isValidGrid (Some crossGrid)
   \<and> findAdjacencyWins crossGrid
       = Inr [[(0, 0), (1, 0), (2, 0), (3, 0)], [(0, 1), (1, 0), (2, 0), (3, 0)]]
   \<and> constantColumnDelta [(0, 0), (1, 0), (2, 0), (3, 0)]
   \<and> \<not> constantColumnDelta [(0, 1), (1, 0), (2, 0), (3, 0)]
   \<and> (\<exists>w. computeWins (Some crossGrid) = Inr (w, [])
          \<and> [(0, 0), (1, 0), (2, 0), (3, 0)] \<notin> set (adjacency w)
          \<and> [(0, 1), (1, 0), (2, 0), (3, 0)] \<in> set (adjacency w))"
proof -
  have v: "isValidGrid (Some crossGrid)" by code_simp
  have r: "findAdjacencyWins crossGrid
             = Inr [[(0, 0), (1, 0), (2, 0), (3, 0)], [(0, 1), (1, 0), (2, 0), (3, 0)]]"
    by code_simp
  have c1: "constantColumnDelta [(0, 0), (1, 0), (2, 0), (3, 0)]" by code_simp
  have c2: "\<not> constantColumnDelta [(0, 1), (1, 0), (2, 0), (3, 0)]" by code_simp
  from adjacency_filter_exact [OF v] r obtain w where
    w: "computeWins (Some crossGrid) = Inr (w, [])"
    and a: "\<forall>p \<in> set [[(0, 0), (1, 0), (2, 0), (3, 0)], [(0, 1), (1, 0), (2, 0), (3, 0)]].
              (p \<notin> set (adjacency w)) = constantColumnDelta p" by auto
  from a c1 have "[(0, 0), (1, 0), (2, 0), (3, 0)] \<notin> set (adjacency w)" by simp
  moreover from a c2 have "[(0, 1), (1, 0), (2, 0), (3, 0)] \<in> set (adjacency w)" by simp
  ultimately show ?thesis using v r c1 c2 w by blast
qed

lemma dedupePaths_subset: "set (dedupePaths ps) \<subseteq> set ps"
  by (auto simp: dedupePaths_def dedupeLoop_filter)

lemma dedupePaths_distinct_keys: "distinct (map pathKey (dedupePaths ps))"
proof -
  have "inj_on (\<lambda>i. pathKey (ps ! i)) (set (filter (isFirst {} ps) [0 ..< length ps]))"
  proof (rule inj_onI)
    fix i j
    assume i: "i \<in> set (filter (isFirst {} ps) [0 ..< length ps])"
      and j: "j \<in> set (filter (isFirst {} ps) [0 ..< length ps])"
      and e: "pathKey (ps ! i) = pathKey (ps ! j)"
    from i have fi: "\<forall>k < i. pathKey (ps ! k) \<noteq> pathKey (ps ! i)" by (simp add: isFirst_def)
    from j have fj: "\<forall>k < j. pathKey (ps ! k) \<noteq> pathKey (ps ! j)" by (simp add: isFirst_def)
    show "i = j"
    proof (rule ccontr)
      assume "i \<noteq> j"
      then have "i < j \<or> j < i" by arith
      with fi fj e show False by auto
    qed
  qed
  then have "distinct (map (\<lambda>i. pathKey (ps ! i)) (filter (isFirst {} ps) [0 ..< length ps]))"
    by (simp add: distinct_map)
  then show ?thesis
    by (simp add: dedupePaths_def dedupeLoop_filter comp_def)
qed

lemma dedupePaths_distinct_sets:
  assumes "\<forall>p \<in> set ps. distinct p"
  shows "distinct (map set (dedupePaths ps))"
proof -
  from dedupePaths_distinct_keys [of ps]
  have d: "distinct (dedupePaths ps)" and i: "inj_on pathKey (set (dedupePaths ps))"
    by (simp_all add: distinct_map)
  have "inj_on set (set (dedupePaths ps))"
  proof (rule inj_onI)
    fix p q assume p: "p \<in> set (dedupePaths ps)" and q: "q \<in> set (dedupePaths ps)"
      and e: "set p = set q"
    from p q assms dedupePaths_subset [of ps] have "distinct p" "distinct q" by auto
    from pathKey_eq_iff [OF this] e have "pathKey p = pathKey q" by simp
    with i p q show "p = q" by (auto dest: inj_onD)
  qed
  with d show ?thesis by (simp add: distinct_map)
qed

lemma strict_rows_inj:
  assumes "sorted_wrt (\<lambda>a b. fst a < fst b) (q :: path)" "x \<in> set q" "y \<in> set q" "fst x = fst y"
  shows "x = y"
proof -
  from assms(1) have "sorted_wrt (<) (map fst q)" by (simp add: sorted_wrt_map)
  then have "distinct (map fst q)" by (simp add: strict_sorted_iff)
  then have "inj_on fst (set q)" by (simp add: distinct_map)
  with assms(2-4) show ?thesis by (auto dest: inj_onD)
qed

lemma horizontal_not_steps:
  assumes "stepsDown q"
  shows "set (horizontalPath r) \<noteq> set q"
proof
  assume e: "set (horizontalPath r) = set q"
  have "(r, 0) \<in> set (horizontalPath r)" "(r, 1) \<in> set (horizontalPath r)"
    by (simp_all add: horizontalPath_def)
  with e have "(r, 0) \<in> set q" "(r, 1) \<in> set q" by simp_all
  from strict_rows_inj [OF stepsDown_strict [OF assms] this] show False by simp
qed

lemma steps_set_eq:
  assumes "stepsDown p" "stepsDown q" "set p = set q"
  shows "p = q"
  using assms stepsDown_sorted stepsDown_distinct
  by (intro sorted_distinct_set_unique) auto

lemma verticalPath_steps: "stepsDown (verticalPath c)"
  by (simp add: verticalPath_def stepOk_def)

lemma diagonalPath_steps: "step = 1 \<or> step = - 1 \<Longrightarrow> stepsDown (diagonalPath step c)"
  by (auto simp: diagonalPath_def stepOk_def)

lemma upt_2_4: "[2 ..< 4] = [2, 3]"
  by (simp add: upt_rec)

lemma verticalPath_straight: "isStraightOrDiagonalPath (verticalPath c)"
  by (simp add: isStraightOrDiagonalPath_def verticalPath_def upt_2_4)

lemma diagonalPath_straight: "isStraightOrDiagonalPath (diagonalPath step c)"
  by (simp add: isStraightOrDiagonalPath_def diagonalPath_def upt_2_4)

lemma vertical_not_diagonal:
  "step = 1 \<or> step = - 1 \<Longrightarrow> verticalPath c \<noteq> diagonalPath step c'"
  by (auto simp: verticalPath_def diagonalPath_def)

lemma straight_raw_cases:
  assumes "p \<in> set (map horizontalPath (filter P [0 .. 3]) @ map verticalPath (filter Q [0 .. 5]))"
  shows "(\<exists>r. p = horizontalPath r) \<or> (\<exists>c. p = verticalPath c)"
  using assms by auto

lemma diagonal_raw_cases:
  assumes "p \<in> set (filter P (map (diagonalPath 1) [0, 1, 2] @ map (diagonalPath (- 1)) [5, 4, 3]))"
  shows "\<exists>step c. (step = 1 \<or> step = - 1) \<and> p = diagonalPath step c"
proof -
  from assms have "p \<in> set (map (diagonalPath 1) [0, 1, 2]) \<or> p \<in> set (map (diagonalPath (- 1)) [5, 4, 3])"
    by (simp only: set_filter mem_Collect_eq set_append Un_iff)
  then show ?thesis
  proof
    assume "p \<in> set (map (diagonalPath 1) [0, 1, 2])"
    then obtain c where "p = diagonalPath 1 c" by auto
    then show ?thesis by blast
  next
    assume "p \<in> set (map (diagonalPath (- 1)) [5, 4, 3])"
    then obtain c where "p = diagonalPath (- 1) c" by auto
    then show ?thesis by blast
  qed
qed

lemma straight_diagonal_disjoint:
  assumes p: "(\<exists>r. p = horizontalPath r) \<or> (\<exists>c. p = verticalPath c)"
    and q: "\<exists>step c. (step = 1 \<or> step = - 1) \<and> q = diagonalPath step c"
  shows "set p \<noteq> set q"
proof -
  from q obtain step c' where s: "step = 1 \<or> step = - 1" and qe: "q = diagonalPath step c'"
    by blast
  from diagonalPath_steps [OF s] qe have sq: "stepsDown q" by simp
  from p show ?thesis
  proof
    assume "\<exists>r. p = horizontalPath r"
    with horizontal_not_steps [OF sq] show ?thesis by auto
  next
    assume "\<exists>c. p = verticalPath c"
    then obtain c where pe: "p = verticalPath c" by blast
    show ?thesis
    proof
      assume "set p = set q"
      with steps_set_eq [OF _ sq, of p] pe verticalPath_steps have "p = q" by simp
      with pe qe have "verticalPath c = diagonalPath step c'" by simp
      with vertical_not_diagonal [OF s] show False by blast
    qed
  qed
qed

lemma straight_adjacency_disjoint:
  assumes p: "(\<exists>r. p = horizontalPath r) \<or> (\<exists>c. p = verticalPath c)"
    and sq: "stepsDown q" and nq: "\<not> isStraightOrDiagonalPath q"
  shows "set p \<noteq> set q"
  using p
proof
  assume "\<exists>r. p = horizontalPath r"
  with horizontal_not_steps [OF sq] show ?thesis by auto
next
  assume "\<exists>c. p = verticalPath c"
  then obtain c where pe: "p = verticalPath c" by blast
  show ?thesis
  proof
    assume "set p = set q"
    with steps_set_eq [OF _ sq, of p] pe verticalPath_steps have "p = q" by simp
    with pe verticalPath_straight [of c] have "isStraightOrDiagonalPath q" by simp
    with nq show False by simp
  qed
qed

lemma diagonal_adjacency_disjoint:
  assumes p: "\<exists>step c. (step = 1 \<or> step = - 1) \<and> p = diagonalPath step c"
    and sq: "stepsDown q" and nq: "\<not> isStraightOrDiagonalPath q"
  shows "set p \<noteq> set q"
proof
  assume e: "set p = set q"
  from p obtain step c where s: "step = 1 \<or> step = - 1" and pe: "p = diagonalPath step c"
    by blast
  from diagonalPath_steps [OF s] pe have "stepsDown p" by simp
  from steps_set_eq [OF this sq e] have "p = q" .
  with pe diagonalPath_straight [of step c] have "isStraightOrDiagonalPath q" by simp
  with nq show False by simp
qed

lemma horizontalPath_distinct: "distinct (horizontalPath r)"
  by (simp add: horizontalPath_def)

text \<open>
  Claim C6. On a valid grid no coordinate set of a path occurs in two of the three
  collections, none occurs twice in one collection, and each collection consists of the
  first occurrences, in the order of generation, of the coordinate sets of its raw list
  (rows then columns; diagonals; the filtered adjacency results).
\<close>

theorem collections_disjoint:
  assumes v: "isValidGrid (Some g)"
  shows "\<exists>w hs vs ds raw.
           computeWins (Some g) = Inr (w, [])
           \<and> findHorizontalWins g = Inr hs \<and> findVerticalWins g = Inr vs
           \<and> findDiagonalWins g = Inr ds \<and> findAdjacencyWins g = Inr raw
           \<and> (\<forall>p \<in> set (straight w). \<forall>q \<in> set (diagonal w). set p \<noteq> set q)
           \<and> (\<forall>p \<in> set (straight w). \<forall>q \<in> set (adjacency w). set p \<noteq> set q)
           \<and> (\<forall>p \<in> set (diagonal w). \<forall>q \<in> set (adjacency w). set p \<noteq> set q)
           \<and> distinct (map set (straight w))
           \<and> distinct (map set (diagonal w))
           \<and> distinct (map set (adjacency w))
           \<and> straight w = firstOccurrences (hs @ vs)
           \<and> diagonal w = firstOccurrences ds
           \<and> adjacency w = firstOccurrences (filter (\<lambda>p. \<not> isStraightOrDiagonalPath p) raw)"
proof -
  define hs where "hs = map horizontalPath (filter (rowEvery g) [0 .. 3])"
  define vs where "vs = map verticalPath (filter (\<lambda>c. sharesSymbol g (verticalPath c)) [0 .. 5])"
  define ds where "ds = filter (sharesSymbol g)
                          (map (diagonalPath 1) [0, 1, 2] @ map (diagonalPath (- 1)) [5, 4, 3])"
  define fs where "fs = filter (\<lambda>p. \<not> isStraightOrDiagonalPath p) (rawAdjacency g)"
  define w where "w = \<lparr>straight = dedupePaths (hs @ vs), diagonal = dedupePaths ds,
                        adjacency = dedupePaths fs\<rparr>"
  have cw: "computeWins (Some g) = Inr (w, [])"
    using computeWins_valid [OF v] by (simp add: w_def hs_def vs_def ds_def fs_def)
  have fh: "findHorizontalWins g = Inr hs"
    using findHorizontalWins_valid [OF v] by (simp add: hs_def)
  have fv: "findVerticalWins g = Inr vs"
    using findVerticalWins_valid [OF v] by (simp add: vs_def)
  have fd: "findDiagonalWins g = Inr ds"
    using findDiagonalWins_valid [OF v] by (simp add: ds_def)
  have fa: "findAdjacencyWins g = Inr (rawAdjacency g)"
    by (rule findAdjacencyWins_valid [OF v])
  have sw: "straight w = dedupePaths (hs @ vs)" and dw: "diagonal w = dedupePaths ds"
    and aw: "adjacency w = dedupePaths fs" by (simp_all add: w_def)
  have sc: "\<And>p. p \<in> set (straight w) \<Longrightarrow> (\<exists>r. p = horizontalPath r) \<or> (\<exists>c. p = verticalPath c)"
  proof -
    fix p assume "p \<in> set (straight w)"
    with dedupePaths_subset [of "hs @ vs"] have "p \<in> set (hs @ vs)"
      unfolding sw by (rule subsetD)
    then show "(\<exists>r. p = horizontalPath r) \<or> (\<exists>c. p = verticalPath c)"
      unfolding hs_def vs_def by (rule straight_raw_cases)
  qed
  have dc: "\<And>p. p \<in> set (diagonal w) \<Longrightarrow> \<exists>step c. (step = 1 \<or> step = - 1) \<and> p = diagonalPath step c"
  proof -
    fix p assume "p \<in> set (diagonal w)"
    with dedupePaths_subset [of ds] have "p \<in> set ds"
      unfolding dw by (rule subsetD)
    then show "\<exists>step c. (step = 1 \<or> step = - 1) \<and> p = diagonalPath step c"
      unfolding ds_def by (rule diagonal_raw_cases)
  qed
  have fsc: "\<And>p. p \<in> set fs \<Longrightarrow> stepsDown p \<and> \<not> isStraightOrDiagonalPath p"
  proof -
    fix p assume "p \<in> set fs"
    then have "p \<in> set (rawAdjacency g)" and n: "\<not> isStraightOrDiagonalPath p"
      by (simp_all add: fs_def)
    from rawAdjacency_stepsDown [OF v this(1)] n
    show "stepsDown p \<and> \<not> isStraightOrDiagonalPath p" by simp
  qed
  have ac: "\<And>p. p \<in> set (adjacency w) \<Longrightarrow> stepsDown p \<and> \<not> isStraightOrDiagonalPath p"
  proof -
    fix p assume "p \<in> set (adjacency w)"
    with dedupePaths_subset [of fs] have "p \<in> set fs" unfolding aw by (rule subsetD)
    then show "stepsDown p \<and> \<not> isStraightOrDiagonalPath p" by (rule fsc)
  qed
  have d1: "\<forall>p \<in> set (straight w). \<forall>q \<in> set (diagonal w). set p \<noteq> set q"
  proof (intro ballI)
    fix p q assume "p \<in> set (straight w)" "q \<in> set (diagonal w)"
    from straight_diagonal_disjoint [OF sc [OF this(1)] dc [OF this(2)]]
    show "set p \<noteq> set q" .
  qed
  have d2: "\<forall>p \<in> set (straight w). \<forall>q \<in> set (adjacency w). set p \<noteq> set q"
  proof (intro ballI)
    fix p q assume p: "p \<in> set (straight w)" and q: "q \<in> set (adjacency w)"
    from ac [OF q] have "stepsDown q" "\<not> isStraightOrDiagonalPath q" by simp_all
    from straight_adjacency_disjoint [OF sc [OF p] this]
    show "set p \<noteq> set q" .
  qed
  have d3: "\<forall>p \<in> set (diagonal w). \<forall>q \<in> set (adjacency w). set p \<noteq> set q"
  proof (intro ballI)
    fix p q assume p: "p \<in> set (diagonal w)" and q: "q \<in> set (adjacency w)"
    from ac [OF q] have "stepsDown q" "\<not> isStraightOrDiagonalPath q" by simp_all
    from diagonal_adjacency_disjoint [OF dc [OF p] this]
    show "set p \<noteq> set q" .
  qed
  have n1: "\<forall>p \<in> set (hs @ vs). distinct p"
  proof
    fix p assume "p \<in> set (hs @ vs)"
    then have "(\<exists>r. p = horizontalPath r) \<or> (\<exists>c. p = verticalPath c)"
      unfolding hs_def vs_def by (rule straight_raw_cases)
    then show "distinct p"
    proof
      assume "\<exists>r. p = horizontalPath r"
      then show ?thesis using horizontalPath_distinct by auto
    next
      assume "\<exists>c. p = verticalPath c"
      then show ?thesis using stepsDown_distinct [OF verticalPath_steps] by auto
    qed
  qed
  have n2: "\<forall>p \<in> set ds. distinct p"
  proof
    fix p assume "p \<in> set ds"
    then have "\<exists>step c. (step = 1 \<or> step = - 1) \<and> p = diagonalPath step c"
      unfolding ds_def by (rule diagonal_raw_cases)
    then obtain step c where "step = 1 \<or> step = - 1" "p = diagonalPath step c" by blast
    with stepsDown_distinct [OF diagonalPath_steps, of step c] show "distinct p" by simp
  qed
  have n3: "\<forall>p \<in> set fs. distinct p"
  proof
    fix p assume "p \<in> set fs"
    from fsc [OF this] have "stepsDown p" by simp
    then show "distinct p" by (rule stepsDown_distinct)
  qed
  have u1: "distinct (map set (straight w))"
    unfolding sw by (rule dedupePaths_distinct_sets [OF n1])
  have u2: "distinct (map set (diagonal w))"
    unfolding dw by (rule dedupePaths_distinct_sets [OF n2])
  have u3: "distinct (map set (adjacency w))"
    unfolding aw by (rule dedupePaths_distinct_sets [OF n3])
  have o1: "straight w = firstOccurrences (hs @ vs)"
    unfolding sw by (rule dedupePaths_firstOccurrences [OF n1])
  have o2: "diagonal w = firstOccurrences ds"
    unfolding dw by (rule dedupePaths_firstOccurrences [OF n2])
  have o3: "adjacency w = firstOccurrences (filter (\<lambda>p. \<not> isStraightOrDiagonalPath p) (rawAdjacency g))"
    unfolding aw using dedupePaths_firstOccurrences [OF n3] by (simp add: fs_def)
  show ?thesis
    apply (rule exI [of _ w])
    apply (rule exI [of _ hs])
    apply (rule exI [of _ vs])
    apply (rule exI [of _ ds])
    apply (rule exI [of _ "rawAdjacency g"])
    apply (intro conjI)
    apply (fact cw fh fv fd fa d1 d2 d3 u1 u2 u3 o1 o2 o3)+
    done
qed

text \<open>
  The three collections of \<open>crossGrid\<close>.
\<close>

theorem collections_disjoint_witness:
  "isValidGrid (Some crossGrid)
   \<and> computeWins (Some crossGrid)
       = Inr (\<lparr>straight = [[(0, 0), (0, 1), (0, 2), (0, 3), (0, 4), (0, 5)],
                            [(0, 0), (1, 0), (2, 0), (3, 0)]],
               diagonal = [],
               adjacency = [[(0, 1), (1, 0), (2, 0), (3, 0)]]\<rparr>, [])
   \<and> (\<exists>w. computeWins (Some crossGrid) = Inr (w, [])
          \<and> (\<forall>p \<in> set (straight w). \<forall>q \<in> set (adjacency w). set p \<noteq> set q)
          \<and> distinct (map set (straight w)))"
proof -
  have v: "isValidGrid (Some crossGrid)" by code_simp
  have e: "computeWins (Some crossGrid)
       = Inr (\<lparr>straight = [[(0, 0), (0, 1), (0, 2), (0, 3), (0, 4), (0, 5)],
                            [(0, 0), (1, 0), (2, 0), (3, 0)]],
               diagonal = [],
               adjacency = [[(0, 1), (1, 0), (2, 0), (3, 0)]]\<rparr>, [])" by code_simp
  from collections_disjoint [OF v] obtain w where
    "computeWins (Some crossGrid) = Inr (w, [])"
    "\<forall>p \<in> set (straight w). \<forall>q \<in> set (adjacency w). set p \<noteq> set q"
    "distinct (map set (straight w))" by blast
  with v e show ?thesis by blast
qed

text \<open>
  A ragged grid with a missing row.
\<close>

theorem computeWins_total_witness:
  "\<exists>w lg. computeWins (Some [Some [Symbol ''A'', Hole, Undefined], None, Some []]) = Inr (w, lg)"
  by (rule computeWins_total)

text \<open>
  On \<open>crossGrid\<close> there are 2 + 0 + 1 winning paths.
\<close>

theorem checkWin_concat_witness:
  "\<exists>res lg. checkWin (Some crossGrid) = Inr (res, lg) \<and> length (winningPaths res) = 3"
proof -
  have e: "computeWins (Some crossGrid)
       = Inr (\<lparr>straight = [[(0, 0), (0, 1), (0, 2), (0, 3), (0, 4), (0, 5)],
                            [(0, 0), (1, 0), (2, 0), (3, 0)]],
               diagonal = [],
               adjacency = [[(0, 1), (1, 0), (2, 0), (3, 0)]]\<rparr>, [])" by code_simp
  from checkWin_concat [of "Some crossGrid"] obtain res w lg where
    c: "computeWins (Some crossGrid) = Inr (w, lg)" and r: "checkWin (Some crossGrid) = Inr (res, lg)"
    and l: "length (winningPaths res) = length (straight w) + length (diagonal w) + length (adjacency w)"
    by blast
  from c e have "w = \<lparr>straight = [[(0, 0), (0, 1), (0, 2), (0, 3), (0, 4), (0, 5)],
                            [(0, 0), (1, 0), (2, 0), (3, 0)]],
               diagonal = [],
               adjacency = [[(0, 1), (1, 0), (2, 0), (3, 0)]]\<rparr>" by simp
  with l have "length (winningPaths res) = 3" by simp
  with r show ?thesis by blast
qed

end
